theory Spec2Isabelle
  imports Main "HOL-Library.Mapping" "HOL-Library.AList_Mapping"
    "HOL-Library.List_Lexorder" "HOL-Library.Char_ord" "HOL-Library.Multiset"
begin

section \<open>The schema tree (github.com/vektah/gqlparser/v2/ast, as far as the Replacer reads it)\<close>

text \<open>
  The Replacer of \<^verbatim>\<open>graphqltools/replaces_directive.go\<close> walks a parsed schema. The
  structs of the parser's \<^verbatim>\<open>ast\<close> package are records here, with the fields the
  Replacer reads or writes. Go strings are byte strings: \<^typ>\<open>string\<close>, compared bytewise
  (the lexicographic order on \<^typ>\<open>char list\<close>).

  Scope of the model: syntax trees as the parser builds them. A slice is a list (nil and
  the empty slice are the same list), a \<^verbatim>\<open>*Type\<close> or \<^verbatim>\<open>*Value\<close> inside a node is the
  value it points to, and the run-time panics Go raises on trees no parser builds (a nil
  \<^verbatim>\<open>Position\<close>, a \<^verbatim>\<open>Position.Start\<close> outside the source text, a type with neither
  \<^verbatim>\<open>NamedType\<close> nor \<^verbatim>\<open>Elem\<close>, a field name that is not a regular-expression literal)
  are not branches of the model; the predicates \<open>wf_Type\<close> and \<open>is_name\<close> below
  say where a theorem depends on such a tree being well formed.
\<close>

datatype DefinitionKind =
  KindZero  \<comment> \<open>the zero value \<^verbatim>\<open>""\<close> of \<^verbatim>\<open>ast.DefinitionKind\<close>\<close>
  | Scalar | Object | Interface | Union | Enum | InputObject

datatype ValueKind =
  Variable | IntValue | FloatValue | StringValue | BlockValue | BooleanValue
  | NullValue | EnumValue | ListValue | ObjectValue

record Value =
  val_Raw :: string
  val_Kind :: ValueKind

record Argument =
  arg_Name :: string
  arg_Value :: Value

record Directive =
  dir_Name :: string
  dir_Arguments :: "Argument list"

text \<open>\<^verbatim>\<open>Type{NamedType string, Elem *Type, NonNull bool}\<close>: a nil \<^verbatim>\<open>Elem\<close> is \<open>None\<close>.\<close>

datatype Type = Type (NamedType: string) (Elem: "Type option") (NonNull: bool)

record ArgumentDefinition =
  ad_Description :: string
  ad_Name :: string
  ad_DefaultValue :: "Value option"
  ad_Type :: Type
  ad_Directives :: "Directive list"

record FieldDefinition =
  fd_Description :: string
  fd_Name :: string
  fd_Arguments :: "ArgumentDefinition list"
  fd_DefaultValue :: "Value option"
  fd_Type :: Type
  fd_Directives :: "Directive list"

record EnumValueDefinition =
  ev_Description :: string
  ev_Name :: string
  ev_Directives :: "Directive list"

text \<open>\<^verbatim>\<open>Position\<close>: the offset of the definition's name and the source text it indexes
  (\<^verbatim>\<open>Position.Src.Input\<close>).\<close>

record Position =
  pos_Start :: int
  pos_Input :: string

record Definition =
  def_Kind :: DefinitionKind
  def_Description :: string
  def_Name :: string
  def_Directives :: "Directive list"
  def_Interfaces :: "string list"
  def_Fields :: "FieldDefinition list"
  def_Types :: "string list"
  def_EnumValues :: "EnumValueDefinition list"
  def_Position :: "Position option"
  def_BuiltIn :: bool


section \<open>Type rewriting\<close>

text \<open>\<^verbatim>\<open>_updateType\<close>: the same shape with the inner named type replaced. On a type
  with neither name nor element Go dereferences nil; the model leaves the element absent
  (see the scope above).\<close>

fun updateType :: "Type \<Rightarrow> string \<Rightarrow> Type" where
  "updateType (Type n e nn) newTypeName =
     (if n \<noteq> [] then Type newTypeName None nn
      else Type [] (case e of None \<Rightarrow> None | Some t \<Rightarrow> Some (updateType t newTypeName)) nn)"



section \<open>Errors\<close>

text \<open>The sentinel kinds of \<^verbatim>\<open>errors/kind\<close> the Replacer uses, and the three ways it
  builds an error from one: \<^verbatim>\<open>errors.WithStack\<close>, \<^verbatim>\<open>errors.Wrap\<close> with a message, and
  \<^verbatim>\<open>errors.WrapWithFields\<close> with its fields in the order the source lists them.\<close>

datatype ErrKind = NotFound | InvalidInput | Internal

datatype error =
  WithStack ErrKind
  | Wrap ErrKind string
  | WrapWithFields ErrKind "(string \<times> string) list"

fun kind_of :: "error \<Rightarrow> ErrKind" where
  "kind_of (WithStack k) = k"
| "kind_of (Wrap k m) = k"
| "kind_of (WrapWithFields k fs) = k"

text \<open>\<^verbatim>\<open>errors.Is(err, k)\<close> on an error wrapping a sentinel.\<close>

definition errors_Is :: "error \<Rightarrow> ErrKind \<Rightarrow> bool" where
  "errors_Is e k = (kind_of e = k)"

text \<open>What the two entry points return on failure:
  \<^verbatim>\<open>errors.WrapWithFields(kind.InvalidInput, errors.Fields{"errorlist": replacer.errors})\<close>.\<close>

datatype ErrorList_error = WrapErrorList ErrKind "error list"

section \<open>The marker extractor\<close>

record ReplaceInfo =
  OldName :: string
  OldTypeName :: string
  WasRequiredBeforeRename :: bool
  TreatZeroAsUnset :: bool
  TreatZeroAsUnsetPresent :: bool

text \<open>\<^verbatim>\<open>DirectiveList.ForName\<close> and \<^verbatim>\<open>ArgumentList.ForName\<close>: the first entry of that
  name, or nil.\<close>

definition directives_ForName :: "Directive list \<Rightarrow> string \<Rightarrow> Directive option" where
  "directives_ForName ds n = find (\<lambda>d. dir_Name d = n) ds"

definition arguments_ForName :: "Argument list \<Rightarrow> string \<Rightarrow> Argument option" where
  "arguments_ForName as n = find (\<lambda>a. arg_Name a = n) as"

definition GetReplaceInfo :: "Directive list \<Rightarrow> error + ReplaceInfo" where
  "GetReplaceInfo directives =
     (case directives_ForName directives ''replaces'' of
        None \<Rightarrow> Inl (WithStack NotFound)
      | Some directive \<Rightarrow>
          (case arguments_ForName (dir_Arguments directive) ''name'' of
             None \<Rightarrow> Inl (Wrap Internal ''name required on @replaces directive'')
           | Some arg \<Rightarrow>
               Inr \<lparr> OldName = val_Raw (arg_Value arg),
                     OldTypeName =
                       (case arguments_ForName (dir_Arguments directive) ''type'' of
                          None \<Rightarrow> [] | Some a \<Rightarrow> val_Raw (arg_Value a)),
                     WasRequiredBeforeRename =
                       (case arguments_ForName (dir_Arguments directive)
                               ''wasRequiredBeforeRename'' of
                          None \<Rightarrow> False | Some a \<Rightarrow> val_Raw (arg_Value a) = ''true''),
                     TreatZeroAsUnset =
                       (case arguments_ForName (dir_Arguments directive) ''treatZeroAsUnset'' of
                          None \<Rightarrow> False | Some a \<Rightarrow> val_Raw (arg_Value a) = ''true''),
                     TreatZeroAsUnsetPresent =
                       (case arguments_ForName (dir_Arguments directive) ''treatZeroAsUnset'' of
                          None \<Rightarrow> False | Some a \<Rightarrow> True) \<rparr>))"

section \<open>The Replacer\<close>

text \<open>
  The schema \<^verbatim>\<open>schema.Types\<close> is a Go map from names to \<^verbatim>\<open>*ast.Definition\<close>. The
  Replacer only ranges over its values, in an order Go leaves open, and keeps some of the
  pointers. So the model has a heap of definitions (a list, addressed by position) and
  takes \<^verbatim>\<open>schema.Types\<close> as the list of addresses in the order the range visits them.
  A \<^verbatim>\<open>*ast.FieldDefinition\<close> or \<^verbatim>\<open>*ast.EnumValueDefinition\<close> the Replacer keeps is the
  struct it points to: no code writes to those structs.
\<close>

type_synonym heap = "Definition list"

record definitionInfo =
  di_definition :: nat  \<comment> \<open>\<^verbatim>\<open>*ast.Definition\<close>, an address in the heap\<close>
  di_oldName :: string

record fieldInfo =
  fi_field :: FieldDefinition
  fi_oldName :: string
  fi_oldTypeName :: string

record enumValueInfo =
  evi_enumValue :: EnumValueDefinition
  evi_newName :: string
  evi_oldName :: string

record Replacer =
  errors :: "error list"
  rfields :: "(string, fieldInfo list) mapping"  \<comment> \<open>the source's \<^verbatim>\<open>fields\<close>\<close>
  definitions :: "definitionInfo list"
  enumValues :: "(string, enumValueInfo list) mapping"
  extraImplements :: "(string, string list) mapping"
  extraUnionMembers :: "(string, string list) mapping"
  cacheReplacedTypes :: "(string, string) mapping"
  definitionKinds :: "(string, DefinitionKind) mapping"
  federationKeys :: "(string, string list) mapping"
  hasProcessedSchema :: bool

definition NewReplacer :: Replacer where
  "NewReplacer =
     \<lparr> errors = [], rfields = Mapping.empty, definitions = [], enumValues = Mapping.empty,
       extraImplements = Mapping.empty, extraUnionMembers = Mapping.empty,
       cacheReplacedTypes = Mapping.empty, definitionKinds = Mapping.empty,
       federationKeys = Mapping.empty, hasProcessedSchema = False \<rparr>"

text \<open>\<^verbatim>\<open>m[k] = append(m[k], v)\<close> on a map of slices: a missing key reads as nil.\<close>

definition map_append :: "string \<Rightarrow> 'a \<Rightarrow> (string, 'a list) mapping \<Rightarrow> (string, 'a list) mapping" where
  "map_append k v m = Mapping.update k (Mapping.lookup_default [] m k @ [v]) m"

text \<open>\<^verbatim>\<open>Replacer.getReplaceInfo\<close>: "not found" is silent, any other error is recorded.\<close>

definition getReplaceInfo :: "Directive list \<Rightarrow> Replacer \<Rightarrow> ReplaceInfo option \<times> Replacer" where
  "getReplaceInfo directives r =
     (case GetReplaceInfo directives of
        Inl err \<Rightarrow>
          (if errors_Is err NotFound then (None, r)
           else (None, r\<lparr>errors := errors r @ [err]\<rparr>))
      | Inr replaceInfo \<Rightarrow> (Some replaceInfo, r))"

section \<open>Index construction\<close>

definition isNonListField :: "FieldDefinition \<Rightarrow> bool" where
  "isNonListField field = (NamedType (fd_Type field) \<noteq> [])"

text \<open>The loop of \<^verbatim>\<open>_processField\<close> over the arguments of a field that carries no
  marker: one error for each argument that does.\<close>

definition checkArgument :: "string \<Rightarrow> FieldDefinition \<Rightarrow> ArgumentDefinition \<Rightarrow> Replacer \<Rightarrow> Replacer" where
  "checkArgument typeName field arg r =
     (case getReplaceInfo (ad_Directives arg) r of
        (None, r1) \<Rightarrow> r1
      | (Some ri, r1) \<Rightarrow>
          r1\<lparr>errors := errors r1 @
            [WrapWithFields Internal
               [(''message'', ''@replaces directive on arguments can only be used on renamed fields''),
                (''type'', typeName), (''field'', fd_Name field), (''argument'', ad_Name arg)]]\<rparr>)"

definition processField :: "string \<Rightarrow> DefinitionKind \<Rightarrow> FieldDefinition \<Rightarrow> Replacer \<Rightarrow> Replacer" where
  "processField typeName definitionKind field r =
     (case getReplaceInfo (fd_Directives field) r of
        (None, r1) \<Rightarrow> fold (checkArgument typeName field) (fd_Arguments field) r1
      | (Some replaceInfo, r1) \<Rightarrow>
          (let r2 = (if definitionKind = InputObject \<and> NonNull (fd_Type field)
                     then r1\<lparr>errors := errors r1 @
                            [WrapWithFields InvalidInput
                               [(''message'', ''input fields using the @replaces directive must be nullable''),
                                (''type'', typeName), (''field'', fd_Name field)]]\<rparr>
                     else r1);
               r3 = (if definitionKind = InputObject \<and> isNonListField field
                          \<and> \<not> TreatZeroAsUnsetPresent replaceInfo
                     then r2\<lparr>errors := errors r2 @
                            [WrapWithFields InvalidInput
                               [(''message'', ''@replaces directive on non-list input fields must include treatZeroAsUnset:true or treatZeroAsUnset:false''),
                                (''type'', typeName), (''field'', fd_Name field)]]\<rparr>
                     else r2)
           in r3\<lparr>rfields := map_append typeName
                  \<lparr>fi_field = field, fi_oldName = OldName replaceInfo,
                   fi_oldTypeName = OldTypeName replaceInfo\<rparr> (rfields r3)\<rparr>))"

definition processEnumValue :: "string \<Rightarrow> EnumValueDefinition \<Rightarrow> Replacer \<Rightarrow> Replacer" where
  "processEnumValue enumName enumValue r =
     (case getReplaceInfo (ev_Directives enumValue) r of
        (None, r1) \<Rightarrow> r1
      | (Some replaceInfo, r1) \<Rightarrow>
          (let r2 = (if OldTypeName replaceInfo \<noteq> []
                     then r1\<lparr>errors := errors r1 @
                            [WrapWithFields InvalidInput
                               [(''message'', ''@replaces directive on enum values can only use `name` argument''),
                                (''enum'', enumName), (''enumValue'', ev_Name enumValue)]]\<rparr>
                     else r1)
           in r2\<lparr>enumValues := map_append enumName
                  \<lparr>evi_enumValue = enumValue, evi_newName = ev_Name enumValue,
                   evi_oldName = OldName replaceInfo\<rparr> (enumValues r2)\<rparr>))"

definition getFederationKeys :: "Definition \<Rightarrow> string list" where
  "getFederationKeys def =
     concat (map (\<lambda>directive.
        if dir_Name directive = ''key''
        then map (\<lambda>arg. val_Raw (arg_Value arg))
               (filter (\<lambda>arg. arg_Name arg = ''fields'') (dir_Arguments directive))
        else []) (def_Directives def))"

text \<open>\<^verbatim>\<open>_processDefinition\<close>, given the address \<open>a\<close> of the definition and the
  definition \<open>def\<close> found there.\<close>

definition processDefinition :: "nat \<Rightarrow> Definition \<Rightarrow> Replacer \<Rightarrow> Replacer" where
  "processDefinition a def r =
     (let r0 = r\<lparr>definitionKinds := Mapping.update (def_Name def) (def_Kind def) (definitionKinds r),
                  federationKeys := Mapping.update (def_Name def) (getFederationKeys def) (federationKeys r)\<rparr>
      in case getReplaceInfo (def_Directives def) r0 of
           (None, r1) \<Rightarrow> r1
         | (Some replaceInfo, r1) \<Rightarrow>
             (let r2 = (if OldTypeName replaceInfo \<noteq> []
                        then r1\<lparr>errors := errors r1 @
                               [WrapWithFields InvalidInput
                                  [(''message'', ''@replaces directive on definitions can only use `name` argument''),
                                   (''definition'', def_Name def)]]\<rparr>
                        else r1)
              in r2\<lparr>definitions := definitions r2 @
                        [\<lparr>di_definition = a, di_oldName = OldName replaceInfo\<rparr>],
                     cacheReplacedTypes :=
                       Mapping.update (def_Name def) (OldName replaceInfo) (cacheReplacedTypes r2)\<rparr>))"

definition processInterfaceImplementation :: "string \<Rightarrow> string \<Rightarrow> Replacer \<Rightarrow> Replacer" where
  "processInterfaceImplementation objectName interfaceName r =
     (case Mapping.lookup (cacheReplacedTypes r) interfaceName of
        None \<Rightarrow> r
      | Some oldName \<Rightarrow> r\<lparr>extraImplements := map_append objectName oldName (extraImplements r)\<rparr>)"

definition processUnionMember :: "string \<Rightarrow> string \<Rightarrow> Replacer \<Rightarrow> Replacer" where
  "processUnionMember unionName memberName r =
     (case Mapping.lookup (cacheReplacedTypes r) memberName of
        None \<Rightarrow> r
      | Some oldName \<Rightarrow> r\<lparr>extraUnionMembers := map_append unionName oldName (extraUnionMembers r)\<rparr>)"

text \<open>The body of the first loop of \<^verbatim>\<open>processSchema\<close> for the definition at address
  \<open>a\<close>, and of the second. Every address in \<^verbatim>\<open>schema.Types\<close> is allocated; the model
  skips one that is not.\<close>

definition pass1_step :: "heap \<Rightarrow> nat \<Rightarrow> Replacer \<Rightarrow> Replacer" where
  "pass1_step h a r =
     (if a < length h then
        (let definition = h ! a; r1 = processDefinition a definition r in
         if def_Kind definition \<in> {Object, InputObject, Interface}
         then fold (processField (def_Name definition) (def_Kind definition))
                (def_Fields definition) r1
         else if def_Kind definition = Enum
         then fold (processEnumValue (def_Name definition)) (def_EnumValues definition) r1
         else r1)
      else r)"

definition pass2_step :: "heap \<Rightarrow> nat \<Rightarrow> Replacer \<Rightarrow> Replacer" where
  "pass2_step h a r =
     (if a < length h then
        (let definition = h ! a in
         if def_Kind definition = Object
         then fold (processInterfaceImplementation (def_Name definition))
                (def_Interfaces definition) r
         else if def_Kind definition = Union
         then fold (processUnionMember (def_Name definition)) (def_Types definition) r
         else r)
      else r)"

text \<open>\<^verbatim>\<open>processSchema\<close>. \<open>types1\<close> and \<open>types2\<close> are \<^verbatim>\<open>schema.Types\<close> in the order
  the first and the second range loop visit it: Go fixes no order for a map, and none
  from one loop to the next.\<close>

definition processSchema :: "heap \<Rightarrow> nat list \<Rightarrow> nat list \<Rightarrow> Replacer \<Rightarrow> Replacer" where
  "processSchema h types1 types2 r =
     (if hasProcessedSchema r
      then r\<lparr>errors := errors r @ [Wrap Internal ''processSchema called multiple times'']\<rparr>
      else fold (pass2_step h) types2 (fold (pass1_step h) types1 (r\<lparr>hasProcessedSchema := True\<rparr>)))"

section \<open>Text utilities\<close>

text \<open>The character classes of Go's \<^verbatim>\<open>regexp\<close> (ASCII): \<^verbatim>\<open>\w\<close>, \<^verbatim>\<open>\s\<close> and
  \<^verbatim>\<open>[ \t]\<close>.\<close>

definition is_word_char :: "char \<Rightarrow> bool" where
  "is_word_char c =
     ((CHR ''0'' \<le> c \<and> c \<le> CHR ''9'') \<or> (CHR ''A'' \<le> c \<and> c \<le> CHR ''Z'')
      \<or> (CHR ''a'' \<le> c \<and> c \<le> CHR ''z'') \<or> c = CHR ''_'')"

definition is_space :: "char \<Rightarrow> bool" where
  "is_space c = (c = CHR 0x09 \<or> c = CHR 0x0A \<or> c = CHR 0x0C \<or> c = CHR 0x0D \<or> c = CHR '' '')"

definition is_blank :: "char \<Rightarrow> bool" where
  "is_blank c = (c = CHR '' '' \<or> c = CHR 0x09)"

text \<open>
  \<^verbatim>\<open>_extendRegex.FindString(s) != ""\<close> for the pattern
  \<^verbatim>\<open>\bextend[ \t]+\w+\s+$\<close>. A match ends at the end of \<open>s\<close>, and since the three
  classes that meet there exclude each other (\<^verbatim>\<open>\w\<close> against \<^verbatim>\<open>\s\<close>, \<^verbatim>\<open>[ \t]\<close> against
  \<^verbatim>\<open>\w\<close>, and \<open>d\<close> is not blank) it is read off from the end: the trailing white space,
  the word before it, the blanks before that, the letters \<open>extend\<close>, and no word character
  before them.
\<close>

definition extendRegex_matches :: "string \<Rightarrow> bool" where
  "extendRegex_matches s =
     (let r = rev s;
          r1 = dropWhile is_space r;
          r2 = dropWhile is_word_char r1;
          r3 = dropWhile is_blank r2
      in takeWhile is_space r \<noteq> [] \<and> takeWhile is_word_char r1 \<noteq> []
         \<and> takeWhile is_blank r2 \<noteq> [] \<and> take 6 r3 = rev ''extend''
         \<and> (case drop 6 r3 of [] \<Rightarrow> True | c # cs \<Rightarrow> \<not> is_word_char c))"

text \<open>\<^verbatim>\<open>_definitionHasExtends\<close>: the 25 bytes before the definition's name, fewer at the
  start of the text. A synthesized definition has no position; the source never asks.\<close>

definition definitionHasExtends :: "Definition \<Rightarrow> bool" where
  "definitionHasExtends def =
     (case def_Position def of
        None \<Rightarrow> False
      | Some p \<Rightarrow>
          (let prefixLength = 6 + 9 + 10;
               prefixStart = pos_Start p - prefixLength;
               prefixLength' = (if prefixStart < 0 then prefixLength + prefixStart else prefixLength);
               prefixStart' = (if prefixStart < 0 then 0 else prefixStart);
               substring = take (nat prefixLength') (drop (nat prefixStart') (pos_Input p))
           in extendRegex_matches substring))"

text \<open>
  The pattern \<^verbatim>\<open>\b word \b\<close> of \<^verbatim>\<open>_containsExactWord\<close> and \<^verbatim>\<open>_replaceExactWord\<close>, for a
  \<open>word\<close> that is a literal (the source: "GraphQL field names, which won't have any
  characters that need to be escaped"). \<open>matchesAt prev rest word\<close>: the pattern matches
  where \<open>rest\<close> begins, \<open>prev\<close> being the byte before it. \<^verbatim>\<open>\b\<close> holds between two
  positions when exactly one side is a word character.
\<close>

fun is_word_opt :: "char option \<Rightarrow> bool" where
  "is_word_opt None = False"
| "is_word_opt (Some c) = is_word_char c"

fun first_opt :: "string \<Rightarrow> char option" where
  "first_opt [] = None"
| "first_opt (c # cs) = Some c"

definition matchesAt :: "char option \<Rightarrow> string \<Rightarrow> string \<Rightarrow> bool" where
  "matchesAt prev rest word =
     (is_word_opt prev \<noteq> is_word_opt (first_opt rest)
      \<and> take (length word) rest = word
      \<and> is_word_opt (if word = [] then prev else Some (last word))
          \<noteq> is_word_opt (first_opt (drop (length word) rest)))"

fun findFrom :: "char option \<Rightarrow> string \<Rightarrow> string \<Rightarrow> bool" where
  "findFrom prev [] word = matchesAt prev [] word"
| "findFrom prev (c # cs) word = (matchesAt prev (c # cs) word \<or> findFrom (Some c) cs word)"

text \<open>\<^verbatim>\<open>regex.FindString(text) != ""\<close>: a match of a non-empty word is not empty.\<close>

definition containsExactWord :: "string \<Rightarrow> string \<Rightarrow> bool" where
  "containsExactWord text word = (word \<noteq> [] \<and> findFrom None text word)"

text \<open>\<^verbatim>\<open>regex.ReplaceAllString\<close>, matches taken from the left and not overlapping; the
  counter is the number of bytes of the current match still to pass over. The replacement
  is copied as it is, which is what Go does for one without \<^verbatim>\<open>$\<close>.\<close>

fun replaceFrom :: "nat \<Rightarrow> char option \<Rightarrow> string \<Rightarrow> string \<Rightarrow> string \<Rightarrow> string" where
  "replaceFrom k prev [] word replacement = []"
| "replaceFrom (Suc k) prev (c # cs) word replacement = replaceFrom k (Some c) cs word replacement"
| "replaceFrom 0 prev (c # cs) word replacement =
     (if matchesAt prev (c # cs) word
      then replacement @ replaceFrom (length word - 1) (Some c) cs word replacement
      else c # replaceFrom 0 (Some c) cs word replacement)"

definition replaceExactWord :: "string \<Rightarrow> string \<Rightarrow> string \<Rightarrow> string" where
  "replaceExactWord text word replacement =
     (if word = [] then text else replaceFrom 0 None text word replacement)"

text \<open>A GraphQL name: letters, digits and underscores, not empty.\<close>

definition is_name :: "string \<Rightarrow> bool" where
  "is_name w = (w \<noteq> [] \<and> (\<forall>c \<in> set w. is_word_char c))"

text \<open>\<^verbatim>\<open>strings.Title\<close> on ASCII text: the first letter of every word in upper case, a
  word starting after any byte that is not a letter, a digit or an underscore.\<close>

definition to_title :: "char \<Rightarrow> char" where
  "to_title c =
     (case map_of (zip ''abcdefghijklmnopqrstuvwxyz'' ''ABCDEFGHIJKLMNOPQRSTUVWXYZ'') c of
        None \<Rightarrow> c | Some u \<Rightarrow> u)"

fun title_from :: "bool \<Rightarrow> string \<Rightarrow> string" where
  "title_from sep [] = []"
| "title_from sep (c # cs) =
     (if sep then to_title c else c) # title_from (\<not> is_word_char c \<and> of_char c < (128::nat)) cs"

definition strings_Title :: "string \<Rightarrow> string" where
  "strings_Title s = title_from True s"

text \<open>\<^verbatim>\<open>strings.ReplaceAll(s, "\t", "    ")\<close>.\<close>

definition tabsToSpaces :: "string \<Rightarrow> string" where
  "tabsToSpaces s = concat (map (\<lambda>c. if c = CHR 0x09 then ''    '' else [c]) s)"

text \<open>\<^verbatim>\<open>_removeReplacesDirective\<close>. The source asks for a slice of capacity
  \<^verbatim>\<open>len(directives)-1\<close>, which panics on a list that is empty and not nil; the parser
  leaves a list without entries nil.\<close>

definition removeReplacesDirective :: "Directive list \<Rightarrow> Directive list" where
  "removeReplacesDirective directives = filter (\<lambda>directive. dir_Name directive \<noteq> ''replaces'') directives"

definition stringDirective :: "string \<Rightarrow> string \<Rightarrow> string \<Rightarrow> Directive" where
  "stringDirective name argName raw =
     \<lparr>dir_Name = name,
      dir_Arguments = [\<lparr>arg_Name = argName, arg_Value = \<lparr>val_Raw = raw, val_Kind = StringValue\<rparr>\<rparr>]\<rparr>"

definition addDeprecatedDirective :: "Directive list \<Rightarrow> string \<Rightarrow> Directive list" where
  "addDeprecatedDirective directives message =
     directives @ [stringDirective ''deprecated'' ''reason'' message]"

section \<open>Overlay synthesis\<close>

text \<open>
  \<^verbatim>\<open>getSchemaAdditions\<close> hands definitions to the formatter of the parser library, one
  call \<^verbatim>\<open>FormatDefinition(definition, extend)\<close> after the other, each followed by a
  newline in the same buffer. The formatter is not part of this repository: the model
  computes the list of these calls, and the text is what a function \<open>render\<close>, a
  parameter, makes of that list.
\<close>

type_synonym emitted = "Definition \<times> bool"

subsection \<open>Stage 1: renamed definitions\<close>

definition stripField :: "FieldDefinition \<Rightarrow> FieldDefinition" where
  "stripField field =
     field\<lparr>fd_Directives := removeReplacesDirective (fd_Directives field),
           fd_Arguments := map (\<lambda>arg. arg\<lparr>ad_Directives := removeReplacesDirective (ad_Directives arg)\<rparr>)
                             (fd_Arguments field)\<rparr>"

definition stripEnumValue :: "EnumValueDefinition \<Rightarrow> EnumValueDefinition" where
  "stripEnumValue enumValue =
     enumValue\<lparr>ev_Directives := removeReplacesDirective (ev_Directives enumValue)\<rparr>"

text \<open>The clone \<^verbatim>\<open>oldDefinition\<close> the first loop builds from the definition \<open>def\<close> it
  finds at the recorded address.\<close>

definition oldDefinitionOf :: "Definition \<Rightarrow> string \<Rightarrow> Definition" where
  "oldDefinitionOf def oldName =
     (let hasExtend = definitionHasExtends def;
          deprecatedMessage = ''Deprecated: Replaced by '' @ def_Name def @ ''.''
      in def\<lparr>def_Description :=
                 (if def_Description def = []
                  then (if \<not> hasExtend then deprecatedMessage else [])
                  else def_Description def @ [CHR 0x0A] @ deprecatedMessage),
              def_Name := oldName,
              def_Directives := removeReplacesDirective (def_Directives def),
              def_Fields := map stripField (def_Fields def),
              def_EnumValues := map stripEnumValue (def_EnumValues def)\<rparr>)"

text \<open>
  One round of the first loop. \<^verbatim>\<open>oldDefinition := *definitionInfo.definition\<close> copies the
  struct, so \<^verbatim>\<open>oldDefinition.EnumValues\<close> is the slice of the definition in the heap,
  over the same array. \<^verbatim>\<open>oldDefinition.Fields\<close> is then set to a slice of its own
  (\<^verbatim>\<open>make\<close>); \<^verbatim>\<open>oldDefinition.EnumValues\<close> is not, and
  \<^verbatim>\<open>oldDefinition.EnumValues[i] = &newEnumValue\<close> stores into the array of the
  definition in the heap.
\<close>

definition stage1_step :: "definitionInfo \<Rightarrow> emitted list \<times> heap \<Rightarrow> emitted list \<times> heap" where
  "stage1_step definitionInfo st =
     (case st of (out, h) \<Rightarrow>
        (let a = di_definition definitionInfo in
         if a < length h then
           (let def = h ! a in
            (out @ [(oldDefinitionOf def (di_oldName definitionInfo), definitionHasExtends def)],
             h[a := def\<lparr>def_EnumValues := map stripEnumValue (def_EnumValues def)\<rparr>]))
         else (out, h)))"

subsection \<open>Stage 2: renamed fields\<close>

definition oldArgumentOf :: "ArgumentDefinition \<Rightarrow> Replacer \<Rightarrow> ArgumentDefinition \<times> Replacer" where
  "oldArgumentOf argument r =
     (case getReplaceInfo (ad_Directives argument) r of
        (None, r1) \<Rightarrow> (argument, r1)
      | (Some replaceInfo, r1) \<Rightarrow>
          (argument\<lparr>ad_Name := OldName replaceInfo,
                     ad_Directives := removeReplacesDirective (ad_Directives argument),
                     ad_Type := (if OldTypeName replaceInfo \<noteq> []
                                 then updateType (ad_Type argument) (OldTypeName replaceInfo)
                                 else ad_Type argument)\<rparr>, r1))"

fun oldArguments :: "ArgumentDefinition list \<Rightarrow> Replacer \<Rightarrow> ArgumentDefinition list \<times> Replacer" where
  "oldArguments [] r = ([], r)"
| "oldArguments (argument # rest) r =
     (case oldArgumentOf argument r of (a', r1) \<Rightarrow>
        (case oldArguments rest r1 of (as', r2) \<Rightarrow> (a' # as', r2)))"

text \<open>The keys of the type with their \<^verbatim>\<open>keyHasUpdates\<close> flags, and the inner loop over
  them for one renamed field.\<close>

definition updateKeys :: "fieldInfo \<Rightarrow> (string \<times> bool) list \<Rightarrow> (string \<times> bool) list" where
  "updateKeys fieldInfo keys =
     map (\<lambda>(key, hasUpdates).
            if containsExactWord key (fd_Name (fi_field fieldInfo))
            then (replaceExactWord key (fd_Name (fi_field fieldInfo)) (fi_oldName fieldInfo), True)
            else (key, hasUpdates)) keys"

definition oldFieldOf :: "DefinitionKind \<Rightarrow> fieldInfo \<Rightarrow> ArgumentDefinition list \<Rightarrow> FieldDefinition" where
  "oldFieldOf kind fieldInfo arguments =
     (let field = fi_field fieldInfo;
          deprecatedMessage = ''Replaced by '' @ fd_Name field @ ''.'';
          directives = removeReplacesDirective (fd_Directives field)
      in field\<lparr>fd_Name := fi_oldName fieldInfo,
                fd_Type := (if fi_oldTypeName fieldInfo \<noteq> []
                            then updateType (fd_Type field) (fi_oldTypeName fieldInfo)
                            else fd_Type field),
                fd_Arguments := arguments,
                fd_Description :=
                  (if kind \<noteq> InputObject then fd_Description field
                   else if fd_Description field = [] then ''Deprecated: '' @ deprecatedMessage
                   else fd_Description field @ [CHR 0x0A] @ ''Deprecated: '' @ deprecatedMessage),
                fd_Directives :=
                  (if kind \<noteq> InputObject then addDeprecatedDirective directives deprecatedMessage
                   else directives)
                  @ [stringDirective ''goField'' ''name''
                       (''Deprecated'' @ strings_Title (fi_oldName fieldInfo))]\<rparr>)"

text \<open>The loop over the renamed fields of one type, for one of its names: the old fields,
  the keys as they stand afterwards, and the Replacer (reading an argument's marker can
  record an error).\<close>

fun oldFields :: "DefinitionKind \<Rightarrow> fieldInfo list \<Rightarrow> (string \<times> bool) list \<Rightarrow> Replacer
    \<Rightarrow> FieldDefinition list \<times> (string \<times> bool) list \<times> Replacer" where
  "oldFields kind [] keys r = ([], keys, r)"
| "oldFields kind (fieldInfo # rest) keys r =
     (case oldArguments (fd_Arguments (fi_field fieldInfo)) r of (arguments, r1) \<Rightarrow>
        (case oldFields kind rest (updateKeys fieldInfo keys) r1 of (fs, keys', r2) \<Rightarrow>
           (oldFieldOf kind fieldInfo arguments # fs, keys', r2)))"

definition emptyDefinition :: "DefinitionKind \<Rightarrow> string \<Rightarrow> Definition" where
  "emptyDefinition kind name =
     \<lparr>def_Kind = kind, def_Description = [], def_Name = name, def_Directives = [],
      def_Interfaces = [], def_Fields = [], def_Types = [], def_EnumValues = [],
      def_Position = None, def_BuiltIn = False\<rparr>"

text \<open>\<^verbatim>\<open>allObjectNames\<close>: the new name, and the old one when the type was renamed.\<close>

definition allNames :: "Replacer \<Rightarrow> string \<Rightarrow> string list" where
  "allNames r newName =
     (case Mapping.lookup (cacheReplacedTypes r) newName of
        None \<Rightarrow> [newName] | Some oldName \<Rightarrow> [newName, oldName])"

text \<open>The loop over \<^verbatim>\<open>allObjectNames\<close> for one type: \<open>keys\<close> and the Replacer go from
  one name to the next.\<close>

fun fieldExtensions :: "DefinitionKind \<Rightarrow> fieldInfo list \<Rightarrow> string list \<Rightarrow> (string \<times> bool) list
    \<Rightarrow> Replacer \<Rightarrow> emitted list \<times> Replacer" where
  "fieldExtensions kind fs [] keys r = ([], r)"
| "fieldExtensions kind fs (objectName # names) keys r =
     (case oldFields kind fs keys r of (ofs, keys', r1) \<Rightarrow>
        (case fieldExtensions kind fs names keys' r1 of (out, r2) \<Rightarrow>
           (((emptyDefinition kind objectName)
               \<lparr>def_Fields := ofs,
                def_Directives := map (\<lambda>(key, u). stringDirective ''key'' ''fields'' key)
                                    (filter snd keys')\<rparr>, True) # out, r2)))"

definition stage2_step :: "string \<Rightarrow> emitted list \<times> Replacer \<Rightarrow> emitted list \<times> Replacer" where
  "stage2_step newObjectName st =
     (case st of (out, r) \<Rightarrow>
        (case fieldExtensions (Mapping.lookup_default KindZero (definitionKinds r) newObjectName)
                (Mapping.lookup_default [] (rfields r) newObjectName)
                (allNames r newObjectName)
                (map (\<lambda>key. (key, False))
                   (Mapping.lookup_default [] (federationKeys r) newObjectName)) r of
           (out', r') \<Rightarrow> (out @ out', r')))"

subsection \<open>Stages 3 to 5: enum values, interfaces, union members\<close>

definition oldEnumValueOf :: "enumValueInfo \<Rightarrow> EnumValueDefinition" where
  "oldEnumValueOf enumValueInfo =
     (evi_enumValue enumValueInfo)
       \<lparr>ev_Name := evi_oldName enumValueInfo,
        ev_Directives :=
          addDeprecatedDirective
            (removeReplacesDirective (ev_Directives (evi_enumValue enumValueInfo)))
            (''Replaced by '' @ evi_newName enumValueInfo @ ''.'')\<rparr>"

definition stage3_step :: "Replacer \<Rightarrow> string \<Rightarrow> emitted list" where
  "stage3_step r newName =
     map (\<lambda>enumName.
            ((emptyDefinition Enum enumName)
               \<lparr>def_EnumValues :=
                  map oldEnumValueOf (Mapping.lookup_default [] (enumValues r) newName)\<rparr>, True))
       (allNames r newName)"

definition stage4_step :: "Replacer \<Rightarrow> string \<Rightarrow> emitted list" where
  "stage4_step r newName =
     map (\<lambda>objectName.
            ((emptyDefinition Object objectName)
               \<lparr>def_Interfaces := Mapping.lookup_default [] (extraImplements r) newName\<rparr>, True))
       (allNames r newName)"

definition stage5_step :: "Replacer \<Rightarrow> string \<Rightarrow> emitted list" where
  "stage5_step r newName =
     map (\<lambda>unionName.
            ((emptyDefinition Union unionName)
               \<lparr>def_Types := Mapping.lookup_default [] (extraUnionMembers r) newName\<rparr>, True))
       (allNames r newName)"

subsection \<open>The whole of it\<close>

text \<open>
  The calls to the formatter in order, the Replacer and the heap afterwards.
  \<^verbatim>\<open>sort.Slice\<close> sorts \<^verbatim>\<open>r.definitions\<close> in place by old name; it promises no order
  between equal old names, and on the short slices of a schema it is an insertion sort,
  which \<^const>\<open>sort_key\<close> is too. The keys of a map, once sorted with \<^verbatim>\<open>sort.Strings\<close>,
  are \<^const>\<open>Mapping.ordered_keys\<close>.
\<close>

definition synthesize :: "heap \<Rightarrow> Replacer \<Rightarrow> emitted list \<times> Replacer \<times> heap" where
  "synthesize h r =
     (let r1 = r\<lparr>definitions := sort_key di_oldName (definitions r)\<rparr> in
      case fold stage1_step (definitions r1) ([], h) of (out1, h') \<Rightarrow>
        (case fold stage2_step (Mapping.ordered_keys (rfields r1)) ([], r1) of (out2, r2) \<Rightarrow>
           (out1 @ out2
              @ concat (map (stage3_step r2) (Mapping.ordered_keys (enumValues r2)))
              @ concat (map (stage4_step r2) (Mapping.ordered_keys (extraImplements r2)))
              @ concat (map (stage5_step r2) (Mapping.ordered_keys (extraUnionMembers r2))),
            r2, h')))"

text \<open>\<^verbatim>\<open>getSchemaAdditions\<close>: the text, the Replacer and the heap afterwards.\<close>

definition getSchemaAdditions :: "(emitted list \<Rightarrow> string) \<Rightarrow> heap \<Rightarrow> Replacer \<Rightarrow> string \<times> Replacer \<times> heap" where
  "getSchemaAdditions render h r =
     (if \<not> hasProcessedSchema r
      then ([], r\<lparr>errors := errors r @
                    [Wrap Internal ''must call processSchema before getSchemaAdditions'']\<rparr>, h)
      else (case synthesize h r of (out, r', h') \<Rightarrow> (tabsToSpaces (render out), r', h')))"

text \<open>The two entry points. The second returns the heap too: the caller keeps the schema.\<close>

definition ValidateReplacesDirectives :: "heap \<Rightarrow> nat list \<Rightarrow> nat list \<Rightarrow> ErrorList_error option" where
  "ValidateReplacesDirectives h types1 types2 =
     (let replacer = processSchema h types1 types2 NewReplacer in
      if errors replacer \<noteq> [] then Some (WrapErrorList InvalidInput (errors replacer))
      else None)"

definition GetReplacesDirectiveUpdates ::
    "(emitted list \<Rightarrow> string) \<Rightarrow> heap \<Rightarrow> nat list \<Rightarrow> nat list
      \<Rightarrow> (string \<times> ErrorList_error option) \<times> heap" where
  "GetReplacesDirectiveUpdates render h types1 types2 =
     (let replacer = processSchema h types1 types2 NewReplacer in
      case getSchemaAdditions render h replacer of (additions, replacer', h') \<Rightarrow>
        (if errors replacer' \<noteq> []
         then (([], Some (WrapErrorList InvalidInput (errors replacer'))), h')
         else ((additions, None), h')))"

section \<open>What each step records, as a function of the schema\<close>

text \<open>
  The Replacer is passed from call to call, and each call adds to it. The functions of
  this section say what is added, from the syntax tree alone; the lemmas of the next
  sections show that the calls above add exactly that.
\<close>

definition markerOf :: "Directive list \<Rightarrow> ReplaceInfo option" where
  "markerOf directives = (case GetReplaceInfo directives of Inl err \<Rightarrow> None | Inr ri \<Rightarrow> Some ri)"

definition markerErrors :: "Directive list \<Rightarrow> error list" where
  "markerErrors directives =
     (case GetReplaceInfo directives of
        Inl err \<Rightarrow> (if errors_Is err NotFound then [] else [err])
      | Inr ri \<Rightarrow> [])"

definition argumentErrors :: "string \<Rightarrow> FieldDefinition \<Rightarrow> ArgumentDefinition \<Rightarrow> error list" where
  "argumentErrors typeName field arg =
     markerErrors (ad_Directives arg) @
     (case markerOf (ad_Directives arg) of
        None \<Rightarrow> []
      | Some ri \<Rightarrow>
          [WrapWithFields Internal
             [(''message'', ''@replaces directive on arguments can only be used on renamed fields''),
              (''type'', typeName), (''field'', fd_Name field), (''argument'', ad_Name arg)]])"

definition fieldErrors :: "string \<Rightarrow> DefinitionKind \<Rightarrow> FieldDefinition \<Rightarrow> error list" where
  "fieldErrors typeName definitionKind field =
     (case markerOf (fd_Directives field) of
        None \<Rightarrow> markerErrors (fd_Directives field)
                 @ concat (map (argumentErrors typeName field) (fd_Arguments field))
      | Some replaceInfo \<Rightarrow>
          (if definitionKind = InputObject \<and> NonNull (fd_Type field)
           then [WrapWithFields InvalidInput
                   [(''message'', ''input fields using the @replaces directive must be nullable''),
                    (''type'', typeName), (''field'', fd_Name field)]]
           else [])
          @ (if definitionKind = InputObject \<and> isNonListField field
                  \<and> \<not> TreatZeroAsUnsetPresent replaceInfo
             then [WrapWithFields InvalidInput
                     [(''message'', ''@replaces directive on non-list input fields must include treatZeroAsUnset:true or treatZeroAsUnset:false''),
                      (''type'', typeName), (''field'', fd_Name field)]]
             else []))"

definition fieldInfos :: "FieldDefinition \<Rightarrow> fieldInfo list" where
  "fieldInfos field =
     (case markerOf (fd_Directives field) of
        None \<Rightarrow> []
      | Some replaceInfo \<Rightarrow>
          [\<lparr>fi_field = field, fi_oldName = OldName replaceInfo,
            fi_oldTypeName = OldTypeName replaceInfo\<rparr>])"

definition enumValueErrors :: "string \<Rightarrow> EnumValueDefinition \<Rightarrow> error list" where
  "enumValueErrors enumName enumValue =
     (case markerOf (ev_Directives enumValue) of
        None \<Rightarrow> markerErrors (ev_Directives enumValue)
      | Some replaceInfo \<Rightarrow>
          (if OldTypeName replaceInfo \<noteq> []
           then [WrapWithFields InvalidInput
                   [(''message'', ''@replaces directive on enum values can only use `name` argument''),
                    (''enum'', enumName), (''enumValue'', ev_Name enumValue)]]
           else []))"

definition enumValueInfos :: "EnumValueDefinition \<Rightarrow> enumValueInfo list" where
  "enumValueInfos enumValue =
     (case markerOf (ev_Directives enumValue) of
        None \<Rightarrow> []
      | Some replaceInfo \<Rightarrow>
          [\<lparr>evi_enumValue = enumValue, evi_newName = ev_Name enumValue,
            evi_oldName = OldName replaceInfo\<rparr>])"

definition definitionErrors :: "Definition \<Rightarrow> error list" where
  "definitionErrors def =
     (case markerOf (def_Directives def) of
        None \<Rightarrow> markerErrors (def_Directives def)
      | Some replaceInfo \<Rightarrow>
          (if OldTypeName replaceInfo \<noteq> []
           then [WrapWithFields InvalidInput
                   [(''message'', ''@replaces directive on definitions can only use `name` argument''),
                    (''definition'', def_Name def)]]
           else []))"

definition definitionInfos :: "nat \<Rightarrow> Definition \<Rightarrow> definitionInfo list" where
  "definitionInfos a def =
     (case markerOf (def_Directives def) of
        None \<Rightarrow> []
      | Some replaceInfo \<Rightarrow> [\<lparr>di_definition = a, di_oldName = OldName replaceInfo\<rparr>])"

text \<open>The renamed fields and enum values of a definition that the first pass looks at.\<close>

definition renamedFields :: "Definition \<Rightarrow> fieldInfo list" where
  "renamedFields def =
     (if def_Kind def \<in> {Object, InputObject, Interface}
      then concat (map fieldInfos (def_Fields def)) else [])"

definition renamedEnumValues :: "Definition \<Rightarrow> enumValueInfo list" where
  "renamedEnumValues def =
     (if def_Kind def = Enum then concat (map enumValueInfos (def_EnumValues def)) else [])"

definition memberErrors :: "Definition \<Rightarrow> error list" where
  "memberErrors def =
     (if def_Kind def \<in> {Object, InputObject, Interface}
      then concat (map (fieldErrors (def_Name def) (def_Kind def)) (def_Fields def))
      else if def_Kind def = Enum
      then concat (map (enumValueErrors (def_Name def)) (def_EnumValues def))
      else [])"

text \<open>\<^verbatim>\<open>m[k] = append(m[k], v)\<close> for each \<open>v\<close> of a list.\<close>

definition map_extend :: "string \<Rightarrow> 'a list \<Rightarrow> (string, 'a list) mapping \<Rightarrow> (string, 'a list) mapping" where
  "map_extend k vs m = (if vs = [] then m else Mapping.update k (Mapping.lookup_default [] m k @ vs) m)"

definition cacheUpdate :: "Definition \<Rightarrow> (string, string) mapping \<Rightarrow> (string, string) mapping" where
  "cacheUpdate def m =
     (case markerOf (def_Directives def) of
        None \<Rightarrow> m
      | Some replaceInfo \<Rightarrow> Mapping.update (def_Name def) (OldName replaceInfo) m)"

text \<open>The old names that the second pass adds for a list of interface or member names.\<close>

definition oldNamesOf :: "(string, string) mapping \<Rightarrow> string list \<Rightarrow> string list" where
  "oldNamesOf cache names = List.map_filter (Mapping.lookup cache) names"

definition implementedOldNames :: "(string, string) mapping \<Rightarrow> Definition \<Rightarrow> string list" where
  "implementedOldNames cache def =
     (if def_Kind def = Object then oldNamesOf cache (def_Interfaces def) else [])"

definition memberOldNames :: "(string, string) mapping \<Rightarrow> Definition \<Rightarrow> string list" where
  "memberOldNames cache def =
     (if def_Kind def = Union then oldNamesOf cache (def_Types def) else [])"

text \<open>What one round of each loop of \<^verbatim>\<open>processSchema\<close> does to each index, for the
  definition at address \<open>a\<close> (nothing, if nothing is allocated there).\<close>

definition indexingErrors :: "heap \<Rightarrow> nat \<Rightarrow> error list" where
  "indexingErrors h a =
     (if a < length h then definitionErrors (h ! a) @ memberErrors (h ! a) else [])"

definition recordedDefinitions :: "heap \<Rightarrow> nat \<Rightarrow> definitionInfo list" where
  "recordedDefinitions h a = (if a < length h then definitionInfos a (h ! a) else [])"

definition fieldsStep :: "heap \<Rightarrow> nat \<Rightarrow> (string, fieldInfo list) mapping \<Rightarrow> (string, fieldInfo list) mapping" where
  "fieldsStep h a m =
     (if a < length h then map_extend (def_Name (h ! a)) (renamedFields (h ! a)) m else m)"

definition enumValuesStep :: "heap \<Rightarrow> nat \<Rightarrow> (string, enumValueInfo list) mapping \<Rightarrow> (string, enumValueInfo list) mapping" where
  "enumValuesStep h a m =
     (if a < length h then map_extend (def_Name (h ! a)) (renamedEnumValues (h ! a)) m else m)"

definition cacheStep :: "heap \<Rightarrow> nat \<Rightarrow> (string, string) mapping \<Rightarrow> (string, string) mapping" where
  "cacheStep h a m = (if a < length h then cacheUpdate (h ! a) m else m)"

definition kindsStep :: "heap \<Rightarrow> nat \<Rightarrow> (string, DefinitionKind) mapping \<Rightarrow> (string, DefinitionKind) mapping" where
  "kindsStep h a m =
     (if a < length h then Mapping.update (def_Name (h ! a)) (def_Kind (h ! a)) m else m)"

definition keysStep :: "heap \<Rightarrow> nat \<Rightarrow> (string, string list) mapping \<Rightarrow> (string, string list) mapping" where
  "keysStep h a m =
     (if a < length h then Mapping.update (def_Name (h ! a)) (getFederationKeys (h ! a)) m else m)"

definition implementsStep :: "heap \<Rightarrow> (string, string) mapping \<Rightarrow> nat \<Rightarrow> (string, string list) mapping \<Rightarrow> (string, string list) mapping" where
  "implementsStep h cache a m =
     (if a < length h then map_extend (def_Name (h ! a)) (implementedOldNames cache (h ! a)) m else m)"

definition unionMembersStep :: "heap \<Rightarrow> (string, string) mapping \<Rightarrow> nat \<Rightarrow> (string, string list) mapping \<Rightarrow> (string, string list) mapping" where
  "unionMembersStep h cache a m =
     (if a < length h then map_extend (def_Name (h ! a)) (memberOldNames cache (h ! a)) m else m)"

text \<open>The definitions at the addresses of \<open>types\<close> have names of their own: what a map
  keyed by the name gives.\<close>

definition distinctNames :: "heap \<Rightarrow> nat list \<Rightarrow> bool" where
  "distinctNames h types =
     (distinct types \<and>
      (\<forall>a \<in> set types. \<forall>b \<in> set types.
         a < length h \<and> b < length h \<and> def_Name (h ! a) = def_Name (h ! b) \<longrightarrow> a = b))"

text \<open>The renamed definitions among them have old names of their own.\<close>

definition distinctOldNames :: "heap \<Rightarrow> nat list \<Rightarrow> bool" where
  "distinctOldNames h types = distinct (map di_oldName (concat (map (recordedDefinitions h) types)))"

text \<open>The same for synthesis: the old argument, the old field, the extensions of one type
  and the errors recorded on the way.\<close>

definition oldArgumentPure :: "ArgumentDefinition \<Rightarrow> ArgumentDefinition" where
  "oldArgumentPure argument =
     (case markerOf (ad_Directives argument) of
        None \<Rightarrow> argument
      | Some replaceInfo \<Rightarrow>
          argument\<lparr>ad_Name := OldName replaceInfo,
                    ad_Directives := removeReplacesDirective (ad_Directives argument),
                    ad_Type := (if OldTypeName replaceInfo \<noteq> []
                                then updateType (ad_Type argument) (OldTypeName replaceInfo)
                                else ad_Type argument)\<rparr>)"

definition fieldArgumentErrors :: "fieldInfo \<Rightarrow> error list" where
  "fieldArgumentErrors fieldInfo =
     concat (map (\<lambda>argument. markerErrors (ad_Directives argument))
               (fd_Arguments (fi_field fieldInfo)))"

definition oldFieldPure :: "DefinitionKind \<Rightarrow> fieldInfo \<Rightarrow> FieldDefinition" where
  "oldFieldPure kind fieldInfo =
     oldFieldOf kind fieldInfo (map oldArgumentPure (fd_Arguments (fi_field fieldInfo)))"

definition keyDirectives :: "(string \<times> bool) list \<Rightarrow> Directive list" where
  "keyDirectives keys = map (\<lambda>(key, u). stringDirective ''key'' ''fields'' key) (filter snd keys)"

fun extensionsFor :: "DefinitionKind \<Rightarrow> fieldInfo list \<Rightarrow> string list \<Rightarrow> (string \<times> bool) list
    \<Rightarrow> emitted list" where
  "extensionsFor kind fs [] keys = []"
| "extensionsFor kind fs (objectName # names) keys =
     ((emptyDefinition kind objectName)
        \<lparr>def_Fields := map (oldFieldPure kind) fs,
         def_Directives := keyDirectives (fold updateKeys fs keys)\<rparr>, True)
     # extensionsFor kind fs names (fold updateKeys fs keys)"

definition stage2_out :: "Replacer \<Rightarrow> string \<Rightarrow> emitted list" where
  "stage2_out r newObjectName =
     extensionsFor (Mapping.lookup_default KindZero (definitionKinds r) newObjectName)
       (Mapping.lookup_default [] (rfields r) newObjectName)
       (allNames r newObjectName)
       (map (\<lambda>key. (key, False)) (Mapping.lookup_default [] (federationKeys r) newObjectName))"

definition stage2_errors :: "Replacer \<Rightarrow> string \<Rightarrow> error list" where
  "stage2_errors r newObjectName =
     concat (replicate (length (allNames r newObjectName))
       (concat (map fieldArgumentErrors (Mapping.lookup_default [] (rfields r) newObjectName))))"

text \<open>Stages 2 to 5 together, and the errors synthesis records.\<close>

definition overlayExtensions :: "Replacer \<Rightarrow> emitted list" where
  "overlayExtensions r =
     concat (map (stage2_out r) (Mapping.ordered_keys (rfields r)))
     @ concat (map (stage3_step r) (Mapping.ordered_keys (enumValues r)))
     @ concat (map (stage4_step r) (Mapping.ordered_keys (extraImplements r)))
     @ concat (map (stage5_step r) (Mapping.ordered_keys (extraUnionMembers r)))"

definition synthesisErrors :: "Replacer \<Rightarrow> error list" where
  "synthesisErrors r = concat (map (stage2_errors r) (Mapping.ordered_keys (rfields r)))"

section \<open>Whole words, in the words of the specification\<close>

text \<open>
  The specification speaks of a field name that "appears as a whole word" in a key. Here
  is that notion without regular expressions: a text falls into tokens, each a maximal
  run of word characters or a single other byte; a name occurs as a whole word when it
  is one of the tokens, and rewriting replaces the tokens equal to the name.
\<close>

fun tokens :: "string \<Rightarrow> string list" where
  "tokens [] = []"
| "tokens (c # cs) =
     (if is_word_char c
      then (case tokens cs of
              [] \<Rightarrow> [[c]]
            | t # ts \<Rightarrow> if is_word_opt (first_opt t) then (c # t) # ts else [c] # t # ts)
      else [c] # tokens cs)"

definition rewriteWords :: "string \<Rightarrow> string \<Rightarrow> string \<Rightarrow> string" where
  "rewriteWords word replacement text =
     concat (map (\<lambda>t. if t = word then replacement else t) (tokens text))"

text \<open>
  With several renamed fields: \<open>oldWord fs t\<close> is the old name of the renamed field whose
  new name is \<open>t\<close>, and \<open>t\<close> itself when no renamed field has that name;
  \<open>rewriteKey fs key\<close> is the key with every whole word that is the new name of a renamed
  field replaced by the old name of that field, and all else as it is;
  \<open>mentionsRenamed fs key\<close> says that the new name of some renamed field is a whole word
  of the key.
\<close>

definition oldWord :: "fieldInfo list \<Rightarrow> string \<Rightarrow> string" where
  "oldWord fs t =
     (case find (\<lambda>fieldInfo. fd_Name (fi_field fieldInfo) = t) fs of
        None \<Rightarrow> t
      | Some fieldInfo \<Rightarrow> fi_oldName fieldInfo)"

definition rewriteKey :: "fieldInfo list \<Rightarrow> string \<Rightarrow> string" where
  "rewriteKey fs key = concat (map (oldWord fs) (tokens key))"

definition mentionsRenamed :: "fieldInfo list \<Rightarrow> string \<Rightarrow> bool" where
  "mentionsRenamed fs key =
     list_ex (\<lambda>fieldInfo. fd_Name (fi_field fieldInfo) \<in> set (tokens key)) fs"

text \<open>The renamed fields of a type are renamed apart: the new names and the old names are
  GraphQL names (so an old name has no \<^verbatim>\<open>$\<close>, which the replacement of a regular
  expression would expand), and no old name is the new name of a renamed field of the
  type.\<close>

definition separateRenames :: "fieldInfo list \<Rightarrow> bool" where
  "separateRenames fs =
     list_all (\<lambda>fieldInfo.
        is_name (fd_Name (fi_field fieldInfo)) \<and> is_name (fi_oldName fieldInfo)
        \<and> list_all (\<lambda>other. fd_Name (fi_field other) \<noteq> fi_oldName fieldInfo) fs) fs"

section \<open>Extend detection, in the words of the specification\<close>

text \<open>
  The specification: "inspect the raw source text immediately preceding the definition for
  the keyword extend followed by the definition's keyword and whitespace, within a bounded
  look-back window". Spelled out: the look-back window is the last 25 bytes of the text
  before the definition's name (all of it, if shorter), and it ends with the word
  \<^verbatim>\<open>extend\<close>, one or more spaces or tabs, a word, and white space.
\<close>

definition endsWithExtend :: "string \<Rightarrow> bool" where
  "endsWithExtend w =
     (\<exists>u bl kw ws.
        w = u @ ''extend'' @ bl @ kw @ ws
        \<and> (u = [] \<or> \<not> is_word_char (last u))
        \<and> bl \<noteq> [] \<and> (\<forall>c \<in> set bl. is_blank c)
        \<and> kw \<noteq> [] \<and> (\<forall>c \<in> set kw. is_word_char c)
        \<and> ws \<noteq> [] \<and> (\<forall>c \<in> set ws. is_space c))"

definition textBeforeName :: "Position \<Rightarrow> string" where
  "textBeforeName p = take (nat (pos_Start p)) (pos_Input p)"

definition lookBack :: "string \<Rightarrow> string" where
  "lookBack before = drop (length before - 25) before"

section \<open>Example schemas\<close>

text \<open>Builders for syntax trees, and the trees of some schemas: most are parsed by the
  tests of \<^verbatim>\<open>replaces_directive_test.go\<close>, named with each.\<close>

definition mkDirective :: "string \<Rightarrow> (string \<times> string) list \<Rightarrow> Directive" where
  "mkDirective name args =
     \<lparr>dir_Name = name,
      dir_Arguments = map (\<lambda>(k, v). \<lparr>arg_Name = k, arg_Value = \<lparr>val_Raw = v, val_Kind = StringValue\<rparr>\<rparr>) args\<rparr>"

definition replaces :: "string \<Rightarrow> Directive" where
  "replaces oldName = mkDirective ''replaces'' [(''name'', oldName)]"

definition replacesType :: "string \<Rightarrow> string \<Rightarrow> Directive" where
  "replacesType oldName oldType = mkDirective ''replaces'' [(''name'', oldName), (''type'', oldType)]"

definition mkField :: "string \<Rightarrow> Type \<Rightarrow> Directive list \<Rightarrow> FieldDefinition" where
  "mkField name typ directives =
     \<lparr>fd_Description = [], fd_Name = name, fd_Arguments = [], fd_DefaultValue = None,
      fd_Type = typ, fd_Directives = directives\<rparr>"

definition mkEnumValue :: "string \<Rightarrow> Directive list \<Rightarrow> EnumValueDefinition" where
  "mkEnumValue name directives = \<lparr>ev_Description = [], ev_Name = name, ev_Directives = directives\<rparr>"

definition mkDefinition :: "DefinitionKind \<Rightarrow> string \<Rightarrow> Directive list \<Rightarrow> string \<Rightarrow> int \<Rightarrow> Definition" where
  "mkDefinition kind name directives src start =
     \<lparr>def_Kind = kind, def_Description = [], def_Name = name, def_Directives = directives,
      def_Interfaces = [], def_Fields = [], def_Types = [], def_EnumValues = [],
      def_Position = Some \<lparr>pos_Start = start, pos_Input = src\<rparr>, def_BuiltIn = False\<rparr>"

text \<open>\<^verbatim>\<open>String\<close>, \<^verbatim>\<open>String!\<close> and \<^verbatim>\<open>[T!]!\<close>.\<close>

definition named :: "string \<Rightarrow> Type" where
  "named n = Type n None False"

definition nonNull :: "string \<Rightarrow> Type" where
  "nonNull n = Type n None True"



text \<open>\<^verbatim>\<open>type Classroom @replaces(name: "StudentList", type: "StudentList") { id: String! }\<close>
  (\<^verbatim>\<open>TestObjectCanNotUseType\<close>).\<close>

definition classroomWithType :: Definition where
  \<open>classroomWithType =
     (mkDefinition Object ''Classroom'' [replacesType ''StudentList'' ''StudentList'']
        ''type Classroom @replaces(name: "StudentList", type: "StudentList") { id: String! }'' 5)
     \<lparr>def_Fields := [mkField ''id'' (nonNull ''String'') []]\<rparr>\<close>

text \<open>\<^verbatim>\<open>type User { classroom(id: String!, teacherKaid: String! @replaces(name: "coachKaid")): Classroom }\<close>
  (\<^verbatim>\<open>TestFieldMustBeReplacedIfArgumentReplaced\<close>).\<close>

definition classroomField :: FieldDefinition where
  "classroomField =
     (mkField ''classroom'' (named ''Classroom'') [])
     \<lparr>fd_Arguments :=
        [\<lparr>ad_Description = [], ad_Name = ''id'', ad_DefaultValue = None,
          ad_Type = nonNull ''String'', ad_Directives = []\<rparr>,
         \<lparr>ad_Description = [], ad_Name = ''teacherKaid'', ad_DefaultValue = None,
          ad_Type = nonNull ''String'', ad_Directives = [replaces ''coachKaid'']\<rparr>]\<rparr>"

definition userWithRenamedArgument :: Definition where
  \<open>userWithRenamedArgument =
     (mkDefinition Object ''User'' []
        ''type User { classroom(id: String!, teacherKaid: String! @replaces(name: "coachKaid")): Classroom }'' 5)
     \<lparr>def_Fields := [classroomField]\<rparr>\<close>

text \<open>\<^verbatim>\<open>type Course { kaLocale: String @replaces(name: "locale") }\<close>, the end-to-end
  example.\<close>

definition course :: Definition where
  \<open>course =
     (mkDefinition Object ''Course'' []
        ''type Course { kaLocale: String @replaces(name: "locale") }'' 5)
     \<lparr>def_Fields := [mkField ''kaLocale'' (named ''String'') [replaces ''locale'']]\<rparr>\<close>

text \<open>\<^verbatim>\<open>type User { classroom(id: String @replaces(type: "ID")): Classroom @replaces(name: "room") }\<close>:
  the field is renamed, and the marker on its argument has no \<^verbatim>\<open>name\<close>.\<close>

definition userWithNamelessMarker :: Definition where
  \<open>userWithNamelessMarker =
     (mkDefinition Object ''User'' []
        ''type User { classroom(id: String @replaces(type: "ID")): Classroom @replaces(name: "room") }'' 5)
     \<lparr>def_Fields :=
        [(mkField ''classroom'' (named ''Classroom'') [replaces ''room''])
         \<lparr>fd_Arguments :=
            [\<lparr>ad_Description = [], ad_Name = ''id'', ad_DefaultValue = None,
              ad_Type = named ''String'',
              ad_Directives = [mkDirective ''replaces'' [(''type'', ''ID'')]]\<rparr>]\<rparr>]\<rparr>\<close>

text \<open>\<^verbatim>\<open>extend type Classroom @replaces(name: "StudentList") @test { id: String! }\<close>
  (\<^verbatim>\<open>TestExtendedDefinitionStaysExtendedAndOmitsDescription\<close>).\<close>

definition extendedClassroom :: Definition where
  \<open>extendedClassroom =
     (mkDefinition Object ''Classroom'' [replaces ''StudentList'', mkDirective ''test'' []]
        ''extend type Classroom @replaces(name: "StudentList") @test { id: String! }'' 12)
     \<lparr>def_Fields := [mkField ''id'' (nonNull ''String'') []]\<rparr>\<close>

text \<open>\<^verbatim>\<open>type Classroom @replaces(name: "StudentList") @test { id: String!
  teacherKaid: String! @replaces(name: "coachKaid") @test }\<close>
  (\<^verbatim>\<open>TestReplacedFieldOnReplacedObject\<close>).\<close>

definition classroom :: Definition where
  \<open>classroom =
     (mkDefinition Object ''Classroom'' [replaces ''StudentList'', mkDirective ''test'' []]
        ''type Classroom @replaces(name: "StudentList") @test { id: String! teacherKaid: String! @replaces(name: "coachKaid") @test }'' 5)
     \<lparr>def_Fields := [mkField ''id'' (nonNull ''String'') [],
                      mkField ''teacherKaid'' (nonNull ''String'')
                        [replaces ''coachKaid'', mkDirective ''test'' []]]\<rparr>\<close>

text \<open>\<^verbatim>\<open>type Group @replaces(name: "StudentList") { id: String! }\<close>: a second type
  renamed from the old name of \<^verbatim>\<open>Classroom\<close>.\<close>

definition group :: Definition where
  \<open>group =
     (mkDefinition Object ''Group'' [replaces ''StudentList'']
        ''type Group @replaces(name: "StudentList") { id: String! }'' 5)
     \<lparr>def_Fields := [mkField ''id'' (nonNull ''String'') []]\<rparr>\<close>

text \<open>The same extension with \<^verbatim>\<open>extend\<close> on a line of its own.\<close>

definition extendOnOwnLine :: Definition where
  \<open>extendOnOwnLine =
     (mkDefinition Object ''Classroom'' [replaces ''StudentList'', mkDirective ''test'' []]
        (''extend'' @ [CHR 0x0A]
           @ ''type Classroom @replaces(name: "StudentList") @test { id: String! }'') 12)
     \<lparr>def_Fields := [mkField ''id'' (nonNull ''String'') []]\<rparr>\<close>

text \<open>\<^verbatim>\<open>"""This is a classroom."""\<close>, and on the next line
  \<^verbatim>\<open>type Classroom @replaces(name: "StudentList") @test { id: String! }\<close>
  (\<^verbatim>\<open>TestObjectRetainsExistingDescription\<close>).\<close>

definition describedClassroom :: Definition where
  \<open>describedClassroom =
     (mkDefinition Object ''Classroom'' [replaces ''StudentList'', mkDirective ''test'' []]
        (''"""This is a classroom."""'' @ [CHR 0x0A]
           @ ''type Classroom @replaces(name: "StudentList") @test { id: String! }'') 32)
     \<lparr>def_Description := ''This is a classroom.'',
      def_Fields := [mkField ''id'' (nonNull ''String'') []]\<rparr>\<close>

text \<open>A stand-in for the formatter where a concrete text is needed: for each call the
  description, if there is one, on a line of its own, then the keyword \<^verbatim>\<open>extend\<close> if
  asked for, the name of the definition, and the newline that \<^verbatim>\<open>getSchemaAdditions\<close>
  writes after the call.\<close>

definition renderNames :: "emitted list \<Rightarrow> string" where
  "renderNames out =
     concat (map (\<lambda>(def, extend).
        (if def_Description def = [] then [] else def_Description def @ [CHR 0x0A])
        @ (if extend then ''extend '' else []) @ def_Name def @ [CHR 0x0A]) out)"

text \<open>The schema of \<^verbatim>\<open>TestFederationKeyFieldEmitsOldKey\<close>, for any key:
  \<^verbatim>\<open>type UserKaLocaleCourse @key(fields: "...") { id: String! kaid: String!
  kaLocale: String @replaces(name: "locale") }\<close>.\<close>

definition userKaLocaleCourse :: "string \<Rightarrow> Definition" where
  \<open>userKaLocaleCourse key =
     (mkDefinition Object ''UserKaLocaleCourse'' [mkDirective ''key'' [(''fields'', key)]]
        (''type UserKaLocaleCourse @key(fields: "'' @ key
           @ ''") { id: String! kaid: String! kaLocale: String @replaces(name: "locale") }'') 5)
     \<lparr>def_Fields := [mkField ''id'' (nonNull ''String'') [], mkField ''kaid'' (nonNull ''String'') [],
                      mkField ''kaLocale'' (named ''String'') [replaces ''locale'']]\<rparr>\<close>

text \<open>\<^verbatim>\<open>type Chain @key(fields: "a") { a: String @replaces(name: "b")
  b: String @replaces(name: "c") }\<close>: the old name of the first field is the new name of
  the second.\<close>

definition chainedRenames :: Definition where
  \<open>chainedRenames =
     (mkDefinition Object ''Chain'' [mkDirective ''key'' [(''fields'', ''a'')]]
        ''type Chain @key(fields: "a") { a: String @replaces(name: "b") b: String @replaces(name: "c") }'' 5)
     \<lparr>def_Fields := [mkField ''a'' (named ''String'') [replaces ''b''],
                      mkField ''b'' (named ''String'') [replaces ''c'']]\<rparr>\<close>

text \<open>\<^verbatim>\<open>type Classroom @replaces(name: "StudentList") @key(fields: "id teacherKaid")
  { id: String! teacherKaid: String! @replaces(name: "coachKaid") }\<close>: a renamed type with
  a key over a renamed field.\<close>

definition classroomWithKey :: Definition where
  \<open>classroomWithKey =
     (mkDefinition Object ''Classroom''
        [replaces ''StudentList'', mkDirective ''key'' [(''fields'', ''id teacherKaid'')]]
        ''type Classroom @replaces(name: "StudentList") @key(fields: "id teacherKaid") { id: String! teacherKaid: String! @replaces(name: "coachKaid") }'' 5)
     \<lparr>def_Fields := [mkField ''id'' (nonNull ''String'') [],
                      mkField ''teacherKaid'' (nonNull ''String'') [replaces ''coachKaid'']]\<rparr>\<close>

text \<open>\<^verbatim>\<open>enum ContentKind @replaces(name: "OldContentKind") { DOMAIN
  COURSE @test @replaces(name: "TOPIC") }\<close> (\<^verbatim>\<open>TestReplacedEnumValueOnReplacedEnum\<close>).\<close>

definition contentKind :: Definition where
  \<open>contentKind =
     (mkDefinition Enum ''ContentKind'' [replaces ''OldContentKind'']
        ''enum ContentKind @replaces(name: "OldContentKind") { DOMAIN COURSE @test @replaces(name: "TOPIC") }'' 5)
     \<lparr>def_EnumValues := [mkEnumValue ''DOMAIN'' [],
                          mkEnumValue ''COURSE'' [mkDirective ''test'' [], replaces ''TOPIC'']]\<rparr>\<close>

section \<open>Properties\<close>

subsection \<open>The first pass adds what the functions say\<close>

lemma getReplaceInfo_eq:
  "getReplaceInfo directives r = (markerOf directives, r\<lparr>errors := errors r @ markerErrors directives\<rparr>)"
  by (simp add: getReplaceInfo_def markerOf_def markerErrors_def split: sum.splits)

lemma markerErrors_Some: "markerOf directives = Some ri \<Longrightarrow> markerErrors directives = []"
  by (simp add: markerOf_def markerErrors_def split: sum.splits)

lemma map_extend_Nil [simp]: "map_extend k [] m = m"
  by (simp add: map_extend_def)

lemma map_append_extend: "map_append k v (map_extend k vs m) = map_extend k (vs @ [v]) m"
  by (simp add: map_append_def map_extend_def lookup_default_update update_update(1))

lemma map_extend_extend: "map_extend k ws (map_extend k vs m) = map_extend k (vs @ ws) m"
  by (simp add: map_extend_def lookup_default_update update_update(1))

lemma map_append_eq: "map_append k v m = map_extend k [v] m"
  by (simp add: map_append_def map_extend_def)

lemma checkArgument_eq:
  "checkArgument typeName field arg r = r\<lparr>errors := errors r @ argumentErrors typeName field arg\<rparr>"
  by (simp add: checkArgument_def getReplaceInfo_eq argumentErrors_def split: option.splits)

lemma fold_checkArgument:
  "fold (checkArgument typeName field) args r
     = r\<lparr>errors := errors r @ concat (map (argumentErrors typeName field) args)\<rparr>"
  by (induction args arbitrary: r) (simp_all add: checkArgument_eq)

lemma processField_eq:
  "processField typeName kind field r
     = r\<lparr>errors := errors r @ fieldErrors typeName kind field,
         rfields := map_extend typeName (fieldInfos field) (rfields r)\<rparr>"
  by (simp add: processField_def getReplaceInfo_eq fold_checkArgument fieldErrors_def
      fieldInfos_def markerErrors_Some map_append_eq Let_def split: option.splits)

lemma fold_processField:
  "fold (processField typeName kind) fs r
     = r\<lparr>errors := errors r @ concat (map (fieldErrors typeName kind) fs),
         rfields := map_extend typeName (concat (map fieldInfos fs)) (rfields r)\<rparr>"
  by (induction fs arbitrary: r) (simp_all add: processField_eq map_extend_extend)

lemma processEnumValue_eq:
  "processEnumValue enumName enumValue r
     = r\<lparr>errors := errors r @ enumValueErrors enumName enumValue,
         enumValues := map_extend enumName (enumValueInfos enumValue) (enumValues r)\<rparr>"
  by (simp add: processEnumValue_def getReplaceInfo_eq enumValueErrors_def
      enumValueInfos_def markerErrors_Some map_append_eq Let_def split: option.splits)

lemma fold_processEnumValue:
  "fold (processEnumValue enumName) evs r
     = r\<lparr>errors := errors r @ concat (map (enumValueErrors enumName) evs),
         enumValues := map_extend enumName (concat (map enumValueInfos evs)) (enumValues r)\<rparr>"
  by (induction evs arbitrary: r) (simp_all add: processEnumValue_eq map_extend_extend)

lemma processDefinition_eq:
  "processDefinition a def r
     = r\<lparr>errors := errors r @ definitionErrors def,
         definitions := definitions r @ definitionInfos a def,
         cacheReplacedTypes := cacheUpdate def (cacheReplacedTypes r),
         definitionKinds := Mapping.update (def_Name def) (def_Kind def) (definitionKinds r),
         federationKeys := Mapping.update (def_Name def) (getFederationKeys def) (federationKeys r)\<rparr>"
  by (simp add: processDefinition_def getReplaceInfo_eq definitionErrors_def definitionInfos_def
      cacheUpdate_def markerErrors_Some Let_def split: option.splits)

lemma pass1_step_eq:
  "a < length h \<Longrightarrow> pass1_step h a r
     = r\<lparr>errors := errors r @ definitionErrors (h ! a) @ memberErrors (h ! a),
         definitions := definitions r @ definitionInfos a (h ! a),
         rfields := map_extend (def_Name (h ! a)) (renamedFields (h ! a)) (rfields r),
         enumValues := map_extend (def_Name (h ! a)) (renamedEnumValues (h ! a)) (enumValues r),
         cacheReplacedTypes := cacheUpdate (h ! a) (cacheReplacedTypes r),
         definitionKinds := Mapping.update (def_Name (h ! a)) (def_Kind (h ! a)) (definitionKinds r),
         federationKeys := Mapping.update (def_Name (h ! a)) (getFederationKeys (h ! a)) (federationKeys r)\<rparr>"
  by (simp add: pass1_step_def processDefinition_eq fold_processField fold_processEnumValue
      memberErrors_def renamedFields_def renamedEnumValues_def Let_def)

lemma pass1_step_dangling: "\<not> a < length h \<Longrightarrow> pass1_step h a r = r"
  by (simp add: pass1_step_def)

subsection \<open>The second pass adds what the functions say\<close>


lemma processInterfaceImplementation_eq:
  "processInterfaceImplementation objectName interfaceName r
     = r\<lparr>extraImplements :=
           map_extend objectName (oldNamesOf (cacheReplacedTypes r) [interfaceName]) (extraImplements r)\<rparr>"
  by (simp add: processInterfaceImplementation_def oldNamesOf_def List.map_filter_simps
      map_append_eq split: option.splits)

lemma oldNamesOf_Cons:
  "oldNamesOf cache (n # ns) = oldNamesOf cache [n] @ oldNamesOf cache ns"
  by (simp add: oldNamesOf_def List.map_filter_simps split: option.splits)

lemma fold_processInterfaceImplementation:
  "fold (processInterfaceImplementation objectName) names r
     = r\<lparr>extraImplements :=
           map_extend objectName (oldNamesOf (cacheReplacedTypes r) names) (extraImplements r)\<rparr>"
proof (induction names arbitrary: r)
  case Nil
  show ?case by (simp add: oldNamesOf_def List.map_filter_simps)
next
  case (Cons n ns)
  show ?case
    by (simp only: fold_simps o_apply Cons)
       (simp add: processInterfaceImplementation_eq map_extend_extend oldNamesOf_Cons [of _ n ns])
qed

lemma processUnionMember_eq:
  "processUnionMember unionName memberName r
     = r\<lparr>extraUnionMembers :=
           map_extend unionName (oldNamesOf (cacheReplacedTypes r) [memberName]) (extraUnionMembers r)\<rparr>"
  by (simp add: processUnionMember_def oldNamesOf_def List.map_filter_simps
      map_append_eq split: option.splits)

lemma fold_processUnionMember:
  "fold (processUnionMember unionName) names r
     = r\<lparr>extraUnionMembers :=
           map_extend unionName (oldNamesOf (cacheReplacedTypes r) names) (extraUnionMembers r)\<rparr>"
proof (induction names arbitrary: r)
  case Nil
  show ?case by (simp add: oldNamesOf_def List.map_filter_simps)
next
  case (Cons n ns)
  show ?case
    by (simp only: fold_simps o_apply Cons)
       (simp add: processUnionMember_eq map_extend_extend oldNamesOf_Cons [of _ n ns])
qed

lemma pass2_step_eq:
  "a < length h \<Longrightarrow> pass2_step h a r
     = r\<lparr>extraImplements :=
           map_extend (def_Name (h ! a)) (implementedOldNames (cacheReplacedTypes r) (h ! a)) (extraImplements r),
         extraUnionMembers :=
           map_extend (def_Name (h ! a)) (memberOldNames (cacheReplacedTypes r) (h ! a)) (extraUnionMembers r)\<rparr>"
  by (simp add: pass2_step_def fold_processInterfaceImplementation fold_processUnionMember
      implementedOldNames_def memberOldNames_def Let_def)

lemma pass2_step_dangling: "\<not> a < length h \<Longrightarrow> pass2_step h a r = r"
  by (simp add: pass2_step_def)

lemma pass1_step_hasProcessedSchema [simp]:
  "hasProcessedSchema (pass1_step h a r) = hasProcessedSchema r"
  by (cases "a < length h") (simp_all add: pass1_step_eq pass1_step_dangling)

lemma pass2_step_hasProcessedSchema [simp]:
  "hasProcessedSchema (pass2_step h a r) = hasProcessedSchema r"
  by (cases "a < length h") (simp_all add: pass2_step_eq pass2_step_dangling)

lemma fold_pass1_hasProcessedSchema [simp]:
  "hasProcessedSchema (fold (pass1_step h) as r) = hasProcessedSchema r"
  by (induction as arbitrary: r) simp_all

lemma fold_pass2_hasProcessedSchema [simp]:
  "hasProcessedSchema (fold (pass2_step h) as r) = hasProcessedSchema r"
  by (induction as arbitrary: r) simp_all

lemma processSchema_hasProcessedSchema [simp]:
  "hasProcessedSchema (processSchema h types1 types2 r)"
  by (simp add: processSchema_def)

lemma pass2_step_errors [simp]: "errors (pass2_step h a r) = errors r"
  by (cases "a < length h") (simp_all add: pass2_step_eq pass2_step_dangling)

lemma fold_pass2_errors [simp]: "errors (fold (pass2_step h) as r) = errors r"
  by (induction as arbitrary: r) simp_all

subsection \<open>Synthesis emits what the functions say\<close>

lemma oldArgumentOf_eq:
  "oldArgumentOf argument r
     = (oldArgumentPure argument, r\<lparr>errors := errors r @ markerErrors (ad_Directives argument)\<rparr>)"
  by (simp add: oldArgumentOf_def oldArgumentPure_def getReplaceInfo_eq split: option.splits)

lemma oldArguments_eq:
  "oldArguments args r
     = (map oldArgumentPure args,
        r\<lparr>errors := errors r @ concat (map (\<lambda>argument. markerErrors (ad_Directives argument)) args)\<rparr>)"
  by (induction args arbitrary: r) (simp_all add: oldArgumentOf_eq)

lemma oldFields_eq:
  "oldFields kind fs keys r
     = (map (oldFieldPure kind) fs, fold updateKeys fs keys,
        r\<lparr>errors := errors r @ concat (map fieldArgumentErrors fs)\<rparr>)"
  by (induction fs arbitrary: keys r)
     (simp_all add: oldArguments_eq oldFieldPure_def fieldArgumentErrors_def)

lemma fieldExtensions_eq:
  "fieldExtensions kind fs names keys r
     = (extensionsFor kind fs names keys,
        r\<lparr>errors := errors r
             @ concat (replicate (length names) (concat (map fieldArgumentErrors fs)))\<rparr>)"
  by (induction names arbitrary: keys r)
     (simp_all add: oldFields_eq keyDirectives_def)

lemma stage2_step_eq:
  "stage2_step newObjectName (out, r)
     = (out @ stage2_out r newObjectName, r\<lparr>errors := errors r @ stage2_errors r newObjectName\<rparr>)"
  by (simp add: stage2_step_def fieldExtensions_eq stage2_out_def stage2_errors_def)

lemma allNames_errors [simp]: "allNames (r\<lparr>errors := es\<rparr>) n = allNames r n"
  by (simp add: allNames_def)

lemma stage2_out_errors [simp]: "stage2_out (r\<lparr>errors := es\<rparr>) = stage2_out r"
  by (rule ext) (simp add: stage2_out_def)

lemma stage2_errors_errors [simp]: "stage2_errors (r\<lparr>errors := es\<rparr>) = stage2_errors r"
  by (rule ext) (simp add: stage2_errors_def)

lemma fold_stage2_step:
  "fold stage2_step names (out, r)
     = (out @ concat (map (stage2_out r) names),
        r\<lparr>errors := errors r @ concat (map (stage2_errors r) names)\<rparr>)"
  by (induction names arbitrary: out r) (simp_all add: stage2_step_eq)

lemma allNames_definitions [simp]: "allNames (r\<lparr>definitions := ds\<rparr>) n = allNames r n"
  by (simp add: allNames_def)

lemma stage2_out_definitions [simp]: "stage2_out (r\<lparr>definitions := ds\<rparr>) = stage2_out r"
  by (rule ext) (simp add: stage2_out_def)

lemma stage2_errors_definitions [simp]: "stage2_errors (r\<lparr>definitions := ds\<rparr>) = stage2_errors r"
  by (rule ext) (simp add: stage2_errors_def)

lemma stage3_step_errors [simp]: "stage3_step (r\<lparr>errors := es\<rparr>) = stage3_step r"
  by (rule ext) (simp add: stage3_step_def)

lemma stage3_step_definitions [simp]: "stage3_step (r\<lparr>definitions := ds\<rparr>) = stage3_step r"
  by (rule ext) (simp add: stage3_step_def)

lemma stage4_step_errors [simp]: "stage4_step (r\<lparr>errors := es\<rparr>) = stage4_step r"
  by (rule ext) (simp add: stage4_step_def)

lemma stage4_step_definitions [simp]: "stage4_step (r\<lparr>definitions := ds\<rparr>) = stage4_step r"
  by (rule ext) (simp add: stage4_step_def)

lemma stage5_step_errors [simp]: "stage5_step (r\<lparr>errors := es\<rparr>) = stage5_step r"
  by (rule ext) (simp add: stage5_step_def)

lemma stage5_step_definitions [simp]: "stage5_step (r\<lparr>definitions := ds\<rparr>) = stage5_step r"
  by (rule ext) (simp add: stage5_step_def)

lemma synthesize_eq:
  "synthesize h r
     = (fst (fold stage1_step (sort_key di_oldName (definitions r)) ([], h)) @ overlayExtensions r,
        r\<lparr>definitions := sort_key di_oldName (definitions r),
          errors := errors r @ synthesisErrors r\<rparr>,
        snd (fold stage1_step (sort_key di_oldName (definitions r)) ([], h)))"
  by (simp add: synthesize_def Let_def fold_stage2_step overlayExtensions_def synthesisErrors_def
      split: prod.splits)

lemma getSchemaAdditions_eq:
  "hasProcessedSchema r \<Longrightarrow> getSchemaAdditions render h r
     = (tabsToSpaces (render (fst (fold stage1_step (sort_key di_oldName (definitions r)) ([], h))
                               @ overlayExtensions r)),
        r\<lparr>definitions := sort_key di_oldName (definitions r),
          errors := errors r @ synthesisErrors r\<rparr>,
        snd (fold stage1_step (sort_key di_oldName (definitions r)) ([], h)))"
  by (simp add: getSchemaAdditions_def synthesize_eq)

subsection \<open>The indices do not depend on the order of the map\<close>

lemma pass1_step_eq':
  "pass1_step h a r
     = r\<lparr>errors := errors r @ indexingErrors h a,
         definitions := definitions r @ recordedDefinitions h a,
         rfields := fieldsStep h a (rfields r),
         enumValues := enumValuesStep h a (enumValues r),
         cacheReplacedTypes := cacheStep h a (cacheReplacedTypes r),
         definitionKinds := kindsStep h a (definitionKinds r),
         federationKeys := keysStep h a (federationKeys r)\<rparr>"
  by (cases "a < length h")
     (simp_all add: pass1_step_eq pass1_step_dangling indexingErrors_def recordedDefinitions_def
        fieldsStep_def enumValuesStep_def cacheStep_def kindsStep_def keysStep_def)

lemma fold_pass1_eq:
  "fold (pass1_step h) as r
     = r\<lparr>errors := errors r @ concat (map (indexingErrors h) as),
         definitions := definitions r @ concat (map (recordedDefinitions h) as),
         rfields := fold (fieldsStep h) as (rfields r),
         enumValues := fold (enumValuesStep h) as (enumValues r),
         cacheReplacedTypes := fold (cacheStep h) as (cacheReplacedTypes r),
         definitionKinds := fold (kindsStep h) as (definitionKinds r),
         federationKeys := fold (keysStep h) as (federationKeys r)\<rparr>"
proof (induction as arbitrary: r)
  case Nil
  show ?case by simp
next
  case (Cons a as)
  show ?case
    by (simp only: fold_simps o_apply Cons) (simp add: pass1_step_eq')
qed

lemma pass2_step_eq':
  "pass2_step h a r
     = r\<lparr>extraImplements := implementsStep h (cacheReplacedTypes r) a (extraImplements r),
         extraUnionMembers := unionMembersStep h (cacheReplacedTypes r) a (extraUnionMembers r)\<rparr>"
  by (cases "a < length h")
     (simp_all add: pass2_step_eq pass2_step_dangling implementsStep_def unionMembersStep_def)

lemma fold_pass2_eq:
  "fold (pass2_step h) as r
     = r\<lparr>extraImplements := fold (implementsStep h (cacheReplacedTypes r)) as (extraImplements r),
         extraUnionMembers := fold (unionMembersStep h (cacheReplacedTypes r)) as (extraUnionMembers r)\<rparr>"
proof (induction as arbitrary: r)
  case Nil
  show ?case by simp
next
  case (Cons a as)
  show ?case
    by (simp only: fold_simps o_apply Cons) (simp add: pass2_step_eq')
qed

lemma processSchema_eq:
  "\<not> hasProcessedSchema r \<Longrightarrow> processSchema h types1 types2 r
     = r\<lparr>hasProcessedSchema := True,
         errors := errors r @ concat (map (indexingErrors h) types1),
         definitions := definitions r @ concat (map (recordedDefinitions h) types1),
         rfields := fold (fieldsStep h) types1 (rfields r),
         enumValues := fold (enumValuesStep h) types1 (enumValues r),
         cacheReplacedTypes := fold (cacheStep h) types1 (cacheReplacedTypes r),
         definitionKinds := fold (kindsStep h) types1 (definitionKinds r),
         federationKeys := fold (keysStep h) types1 (federationKeys r),
         extraImplements :=
           fold (implementsStep h (fold (cacheStep h) types1 (cacheReplacedTypes r))) types2
             (extraImplements r),
         extraUnionMembers :=
           fold (unionMembersStep h (fold (cacheStep h) types1 (cacheReplacedTypes r))) types2
             (extraUnionMembers r)\<rparr>"
  by (simp add: processSchema_def fold_pass2_eq fold_pass1_eq)

lemma map_extend_commute:
  assumes "k \<noteq> k'"
  shows "map_extend k vs (map_extend k' ws m) = map_extend k' ws (map_extend k vs m)"
proof -
  have "Mapping.update k x (Mapping.update k' y m) = Mapping.update k' y (Mapping.update k x m)"
    for x y
    by (rule update_update(2) [OF assms])
  then show ?thesis
    using assms by (simp add: map_extend_def lookup_default_update_neq)
qed

lemma distinctNames_ne:
  "distinctNames h as \<Longrightarrow> a \<in> set as \<Longrightarrow> b \<in> set as \<Longrightarrow> a < length h \<Longrightarrow> b < length h
     \<Longrightarrow> a \<noteq> b \<Longrightarrow> def_Name (h ! a) \<noteq> def_Name (h ! b)"
  by (auto simp add: distinctNames_def)

lemma fieldsStep_commute:
  assumes "distinctNames h as" "a \<in> set as" "b \<in> set as"
  shows "fieldsStep h a (fieldsStep h b m) = fieldsStep h b (fieldsStep h a m)"
proof (cases "a = b \<or> \<not> a < length h \<or> \<not> b < length h")
  case True
  then show ?thesis by (auto simp add: fieldsStep_def)
next
  case False
  then have ne: "def_Name (h ! a) \<noteq> def_Name (h ! b)"
    using distinctNames_ne [OF assms] by simp
  have "map_extend (def_Name (h ! a)) (renamedFields (h ! a)) (map_extend (def_Name (h ! b)) (renamedFields (h ! b)) m)
      = map_extend (def_Name (h ! b)) (renamedFields (h ! b)) (map_extend (def_Name (h ! a)) (renamedFields (h ! a)) m)"
    by (rule map_extend_commute [OF ne])
  then show ?thesis using False by (simp add: fieldsStep_def)
qed

lemma enumValuesStep_commute:
  assumes "distinctNames h as" "a \<in> set as" "b \<in> set as"
  shows "enumValuesStep h a (enumValuesStep h b m) = enumValuesStep h b (enumValuesStep h a m)"
proof (cases "a = b \<or> \<not> a < length h \<or> \<not> b < length h")
  case True
  then show ?thesis by (auto simp add: enumValuesStep_def)
next
  case False
  then have ne: "def_Name (h ! a) \<noteq> def_Name (h ! b)"
    using distinctNames_ne [OF assms] by simp
  have "map_extend (def_Name (h ! a)) (renamedEnumValues (h ! a)) (map_extend (def_Name (h ! b)) (renamedEnumValues (h ! b)) m)
      = map_extend (def_Name (h ! b)) (renamedEnumValues (h ! b)) (map_extend (def_Name (h ! a)) (renamedEnumValues (h ! a)) m)"
    by (rule map_extend_commute [OF ne])
  then show ?thesis using False by (simp add: enumValuesStep_def)
qed

lemma kindsStep_commute:
  assumes "distinctNames h as" "a \<in> set as" "b \<in> set as"
  shows "kindsStep h a (kindsStep h b m) = kindsStep h b (kindsStep h a m)"
proof (cases "a = b \<or> \<not> a < length h \<or> \<not> b < length h")
  case True
  then show ?thesis by (auto simp add: kindsStep_def)
next
  case False
  then have ne: "def_Name (h ! a) \<noteq> def_Name (h ! b)"
    using distinctNames_ne [OF assms] by simp
  have "Mapping.update (def_Name (h ! a)) (def_Kind (h ! a)) (Mapping.update (def_Name (h ! b)) (def_Kind (h ! b)) m)
      = Mapping.update (def_Name (h ! b)) (def_Kind (h ! b)) (Mapping.update (def_Name (h ! a)) (def_Kind (h ! a)) m)"
    by (rule update_update(2) [OF ne])
  then show ?thesis using False by (simp add: kindsStep_def)
qed

lemma keysStep_commute:
  assumes "distinctNames h as" "a \<in> set as" "b \<in> set as"
  shows "keysStep h a (keysStep h b m) = keysStep h b (keysStep h a m)"
proof (cases "a = b \<or> \<not> a < length h \<or> \<not> b < length h")
  case True
  then show ?thesis by (auto simp add: keysStep_def)
next
  case False
  then have ne: "def_Name (h ! a) \<noteq> def_Name (h ! b)"
    using distinctNames_ne [OF assms] by simp
  have "Mapping.update (def_Name (h ! a)) (getFederationKeys (h ! a)) (Mapping.update (def_Name (h ! b)) (getFederationKeys (h ! b)) m)
      = Mapping.update (def_Name (h ! b)) (getFederationKeys (h ! b)) (Mapping.update (def_Name (h ! a)) (getFederationKeys (h ! a)) m)"
    by (rule update_update(2) [OF ne])
  then show ?thesis using False by (simp add: keysStep_def)
qed

lemma implementsStep_commute:
  assumes "distinctNames h as" "a \<in> set as" "b \<in> set as"
  shows "implementsStep h c a (implementsStep h c b m) = implementsStep h c b (implementsStep h c a m)"
proof (cases "a = b \<or> \<not> a < length h \<or> \<not> b < length h")
  case True
  then show ?thesis by (auto simp add: implementsStep_def)
next
  case False
  then have ne: "def_Name (h ! a) \<noteq> def_Name (h ! b)"
    using distinctNames_ne [OF assms] by simp
  have "map_extend (def_Name (h ! a)) (implementedOldNames c (h ! a)) (map_extend (def_Name (h ! b)) (implementedOldNames c (h ! b)) m)
      = map_extend (def_Name (h ! b)) (implementedOldNames c (h ! b)) (map_extend (def_Name (h ! a)) (implementedOldNames c (h ! a)) m)"
    by (rule map_extend_commute [OF ne])
  then show ?thesis using False by (simp add: implementsStep_def)
qed

lemma unionMembersStep_commute:
  assumes "distinctNames h as" "a \<in> set as" "b \<in> set as"
  shows "unionMembersStep h c a (unionMembersStep h c b m) = unionMembersStep h c b (unionMembersStep h c a m)"
proof (cases "a = b \<or> \<not> a < length h \<or> \<not> b < length h")
  case True
  then show ?thesis by (auto simp add: unionMembersStep_def)
next
  case False
  then have ne: "def_Name (h ! a) \<noteq> def_Name (h ! b)"
    using distinctNames_ne [OF assms] by simp
  have "map_extend (def_Name (h ! a)) (memberOldNames c (h ! a)) (map_extend (def_Name (h ! b)) (memberOldNames c (h ! b)) m)
      = map_extend (def_Name (h ! b)) (memberOldNames c (h ! b)) (map_extend (def_Name (h ! a)) (memberOldNames c (h ! a)) m)"
    by (rule map_extend_commute [OF ne])
  then show ?thesis using False by (simp add: unionMembersStep_def)
qed

lemma cacheUpdate_commute:
  assumes "def_Name d \<noteq> def_Name e"
  shows "cacheUpdate d (cacheUpdate e m) = cacheUpdate e (cacheUpdate d m)"
proof -
  have "Mapping.update (def_Name d) x (Mapping.update (def_Name e) y m)
      = Mapping.update (def_Name e) y (Mapping.update (def_Name d) x m)" for x y
    by (rule update_update(2) [OF assms])
  then show ?thesis by (simp add: cacheUpdate_def split: option.splits)
qed

lemma cacheStep_commute:
  assumes "distinctNames h as" "a \<in> set as" "b \<in> set as"
  shows "cacheStep h a (cacheStep h b m) = cacheStep h b (cacheStep h a m)"
proof (cases "a = b \<or> \<not> a < length h \<or> \<not> b < length h")
  case True
  then show ?thesis by (auto simp add: cacheStep_def)
next
  case False
  then have ne: "def_Name (h ! a) \<noteq> def_Name (h ! b)"
    using distinctNames_ne [OF assms] by simp
  show ?thesis using False cacheUpdate_commute [OF ne] by (simp add: cacheStep_def)
qed

lemma fold_perm:
  assumes "mset as = mset bs"
    and "\<And>a b m. a \<in> set as \<Longrightarrow> b \<in> set as \<Longrightarrow> f a (f b m) = f b (f a m)"
  shows "fold f as m = fold f bs m"
  by (rule fold_permuted_eq [where P = "\<lambda>m. True"]) (use assms in simp_all)

lemma mset_concat_map_sum: "mset (concat (map f as)) = (\<Sum>a \<in># mset as. mset (f a))"
  by (induction as) simp_all

lemma mset_concat_map:
  "mset as = mset bs \<Longrightarrow> mset (concat (map f as)) = mset (concat (map f bs))"
  by (simp add: mset_concat_map_sum)

lemma distinctNames_mset:
  assumes "distinctNames h as" "mset bs = mset as"
  shows "distinctNames h bs"
proof -
  have "set bs = set as" using assms(2) by (rule mset_eq_setD)
  moreover have "distinct bs = distinct as" using assms(2) by (metis distinct_count_atmost_1 set_mset_mset)
  ultimately show ?thesis using assms(1) by (simp add: distinctNames_def)
qed

lemma overlayExtensions_cong:
  assumes "rfields r = rfields r'" "enumValues r = enumValues r'"
    "extraImplements r = extraImplements r'" "extraUnionMembers r = extraUnionMembers r'"
    "cacheReplacedTypes r = cacheReplacedTypes r'" "definitionKinds r = definitionKinds r'"
    "federationKeys r = federationKeys r'"
  shows "overlayExtensions r = overlayExtensions r'"
proof -
  have a: "allNames r = allNames r'" by (rule ext) (simp add: allNames_def assms)
  have "stage2_out r = stage2_out r'" by (rule ext) (simp add: stage2_out_def a assms)
  moreover have "stage3_step r = stage3_step r'" by (rule ext) (simp add: stage3_step_def a assms)
  moreover have "stage4_step r = stage4_step r'" by (rule ext) (simp add: stage4_step_def a assms)
  moreover have "stage5_step r = stage5_step r'" by (rule ext) (simp add: stage5_step_def a assms)
  ultimately show ?thesis by (simp add: overlayExtensions_def assms)
qed

lemma synthesisErrors_cong:
  assumes "rfields r = rfields r'" "cacheReplacedTypes r = cacheReplacedTypes r'"
  shows "synthesisErrors r = synthesisErrors r'"
proof -
  have a: "allNames r = allNames r'" by (rule ext) (simp add: allNames_def assms)
  have "stage2_errors r = stage2_errors r'" by (rule ext) (simp add: stage2_errors_def a assms)
  then show ?thesis by (simp add: synthesisErrors_def assms)
qed

lemma sort_key_perm:
  assumes "mset xs = mset ys" "distinct (map f xs)"
  shows "sort_key f xs = sort_key f ys"
proof (rule sort_key_inj_key_eq)
  show "mset xs = mset (sort_key f ys)" using assms(1) by simp
  show "inj_on f (set xs)" using assms(2) by (simp add: distinct_map)
  show "sorted (map f (sort_key f ys))" by simp
qed

lemma concat_empty_perm:
  assumes "mset as = mset bs"
  shows "(concat (map f as) = []) = (concat (map f bs) = [])"
proof -
  have "set as = set bs" using assms by (rule mset_eq_setD)
  then show ?thesis by simp
qed

lemma indices_perm:
  assumes dn: "distinctNames h types1"
    and p1: "mset types1' = mset types1" and p2: "mset types2 = mset types1"
    and p2': "mset types2' = mset types1"
    and r: "r = processSchema h types1 types2 NewReplacer"
    and r': "r' = processSchema h types1' types2' NewReplacer"
  shows "rfields r = rfields r' \<and> enumValues r = enumValues r'
       \<and> extraImplements r = extraImplements r' \<and> extraUnionMembers r = extraUnionMembers r'
       \<and> cacheReplacedTypes r = cacheReplacedTypes r' \<and> definitionKinds r = definitionKinds r'
       \<and> federationKeys r = federationKeys r'
       \<and> mset (definitions r) = mset (definitions r')
       \<and> definitions r = concat (map (recordedDefinitions h) types1)
       \<and> (errors r = []) = (errors r' = [])
       \<and> hasProcessedSchema r \<and> hasProcessedSchema r'"
proof -
  have n: "\<not> hasProcessedSchema NewReplacer" by (simp add: NewReplacer_def)
  have q1: "mset types1 = mset types1'" using p1 by simp
  have q2: "mset types2 = mset types2'" using p2 p2' by simp
  have dn2: "distinctNames h types2" using dn p2 by (rule distinctNames_mset)
  have f: "fold (fieldsStep h) types1 m = fold (fieldsStep h) types1' m" for m
    by (rule fold_perm [OF q1]) (rule fieldsStep_commute [OF dn])
  have e: "fold (enumValuesStep h) types1 m = fold (enumValuesStep h) types1' m" for m
    by (rule fold_perm [OF q1]) (rule enumValuesStep_commute [OF dn])
  have c: "fold (cacheStep h) types1 m = fold (cacheStep h) types1' m" for m
    by (rule fold_perm [OF q1]) (rule cacheStep_commute [OF dn])
  have k: "fold (kindsStep h) types1 m = fold (kindsStep h) types1' m" for m
    by (rule fold_perm [OF q1]) (rule kindsStep_commute [OF dn])
  have fk: "fold (keysStep h) types1 m = fold (keysStep h) types1' m" for m
    by (rule fold_perm [OF q1]) (rule keysStep_commute [OF dn])
  have i: "fold (implementsStep h cache) types2 m = fold (implementsStep h cache) types2' m" for m cache
    by (rule fold_perm [OF q2]) (rule implementsStep_commute [OF dn2])
  have u: "fold (unionMembersStep h cache) types2 m = fold (unionMembersStep h cache) types2' m" for m cache
    by (rule fold_perm [OF q2]) (rule unionMembersStep_commute [OF dn2])
  have d: "mset (concat (map (recordedDefinitions h) types1))
         = mset (concat (map (recordedDefinitions h) types1'))"
    by (rule mset_concat_map [OF q1])
  have er: "(concat (map (indexingErrors h) types1) = [])
          = (concat (map (indexingErrors h) types1') = [])"
    by (rule concat_empty_perm [OF q1])
  show ?thesis
    unfolding r r' processSchema_eq [OF n]
    using d er by (simp add: NewReplacer_def f e c k fk i u)
qed

subsection \<open>The indices, entry by entry\<close>

lemma fold_untouched:
  assumes "\<And>a m. a \<in> set as \<Longrightarrow> Mapping.lookup (f a m) k = Mapping.lookup m k"
  shows "Mapping.lookup (fold f as m) k = Mapping.lookup m k"
  using assms by (induction as arbitrary: m) simp_all

lemma fold_last:
  assumes "a \<in> set as"
    and "\<And>a b m. a \<in> set as \<Longrightarrow> b \<in> set as \<Longrightarrow> f a (f b m) = f b (f a m)"
  shows "fold f as m = f a (fold f (remove1 a as) m)"
proof -
  have "mset as = mset (remove1 a as @ [a])" using assms(1) by simp
  then have "fold f as m = fold f (remove1 a as @ [a]) m"
    by (rule fold_perm) (rule assms(2))
  then show ?thesis by simp
qed

lemma others_have_other_names:
  assumes "distinctNames h as" "a \<in> set as" "a < length h" "b \<in> set (remove1 a as)" "b < length h"
  shows "def_Name (h ! b) \<noteq> def_Name (h ! a)"
proof -
  have "distinct as" using assms(1) by (simp add: distinctNames_def)
  then have "b \<noteq> a" "b \<in> set as" using assms(4) by auto
  then show ?thesis using distinctNames_ne [OF assms(1) _ assms(2) assms(5) assms(3)] by simp
qed

lemma lookup_map_extend:
  "Mapping.lookup (map_extend k vs m) k' = (if k = k' \<and> vs \<noteq> [] then Some (Mapping.lookup_default [] m k @ vs) else Mapping.lookup m k')"
  by (simp add: map_extend_def lookup_update')

lemma cache_after_pass1:
  assumes "distinctNames h as" "a \<in> set as" "a < length h"
  shows "Mapping.lookup (fold (cacheStep h) as m) (def_Name (h ! a))
       = (case markerOf (def_Directives (h ! a)) of
            None \<Rightarrow> Mapping.lookup m (def_Name (h ! a))
          | Some ri \<Rightarrow> Some (OldName ri))"
proof -
  have u: "Mapping.lookup (fold (cacheStep h) (remove1 a as) m) (def_Name (h ! a))
         = Mapping.lookup m (def_Name (h ! a))"
  proof (rule fold_untouched)
    fix b m' assume "b \<in> set (remove1 a as)"
    then show "Mapping.lookup (cacheStep h b m') (def_Name (h ! a)) = Mapping.lookup m' (def_Name (h ! a))"
      using others_have_other_names [OF assms, of b]
      by (simp add: cacheStep_def cacheUpdate_def split: option.splits)
  qed
  have "fold (cacheStep h) as m = cacheStep h a (fold (cacheStep h) (remove1 a as) m)"
    by (rule fold_last [OF assms(2)]) (rule cacheStep_commute [OF assms(1)])
  then show ?thesis
    using assms(3) u by (simp add: cacheStep_def cacheUpdate_def split: option.splits)
qed

lemma fields_after_pass1:
  assumes "distinctNames h as" "a \<in> set as" "a < length h"
  shows "Mapping.lookup (fold (fieldsStep h) as m) (def_Name (h ! a))
       = (if renamedFields (h ! a) = [] then Mapping.lookup m (def_Name (h ! a))
          else Some (Mapping.lookup_default [] m (def_Name (h ! a)) @ renamedFields (h ! a)))"
proof -
  have u: "Mapping.lookup (fold (fieldsStep h) (remove1 a as) m) (def_Name (h ! a))
         = Mapping.lookup m (def_Name (h ! a))"
  proof (rule fold_untouched)
    fix b m' assume "b \<in> set (remove1 a as)"
    then show "Mapping.lookup (fieldsStep h b m') (def_Name (h ! a)) = Mapping.lookup m' (def_Name (h ! a))"
      using others_have_other_names [OF assms, of b]
      by (simp add: fieldsStep_def lookup_map_extend)
  qed
  have "fold (fieldsStep h) as m = fieldsStep h a (fold (fieldsStep h) (remove1 a as) m)"
    by (rule fold_last [OF assms(2)]) (rule fieldsStep_commute [OF assms(1)])
  then show ?thesis
    using assms(3) u by (simp add: fieldsStep_def lookup_map_extend lookup_default_def)
qed

lemma kinds_after_pass1:
  assumes "distinctNames h as" "a \<in> set as" "a < length h"
  shows "Mapping.lookup (fold (kindsStep h) as m) (def_Name (h ! a)) = Some (def_Kind (h ! a))"
proof -
  have "fold (kindsStep h) as m = kindsStep h a (fold (kindsStep h) (remove1 a as) m)"
    by (rule fold_last [OF assms(2)]) (rule kindsStep_commute [OF assms(1)])
  then show ?thesis using assms(3) by (simp add: kindsStep_def)
qed

lemma keys_after_pass1:
  assumes "distinctNames h as" "a \<in> set as" "a < length h"
  shows "Mapping.lookup (fold (keysStep h) as m) (def_Name (h ! a)) = Some (getFederationKeys (h ! a))"
proof -
  have "fold (keysStep h) as m = keysStep h a (fold (keysStep h) (remove1 a as) m)"
    by (rule fold_last [OF assms(2)]) (rule keysStep_commute [OF assms(1)])
  then show ?thesis using assms(3) by (simp add: keysStep_def)
qed

lemma finite_keys_map_extend [simp]: "finite (Mapping.keys (map_extend k vs m)) = finite (Mapping.keys m)"
  by (simp add: map_extend_def)

lemma finite_keys_fieldsStep [simp]: "finite (Mapping.keys (fieldsStep h a m)) = finite (Mapping.keys m)"
  by (simp add: fieldsStep_def)

lemma finite_keys_fold_fieldsStep [simp]:
  "finite (Mapping.keys (fold (fieldsStep h) as m)) = finite (Mapping.keys m)"
  by (induction as arbitrary: m) simp_all

lemma extensionsFor_names:
  "map (def_Name \<circ> fst) (extensionsFor kind fs names keys) = names"
  by (induction names arbitrary: keys) (simp_all add: emptyDefinition_def)

lemma extensionsFor_members:
  "e \<in> set (extensionsFor kind fs names keys) \<Longrightarrow>
     snd e \<and> def_Kind (fst e) = kind \<and> def_Fields (fst e) = map (oldFieldPure kind) fs"
  by (induction names arbitrary: keys) (auto simp add: emptyDefinition_def)

lemma overlay_holds_stage2:
  assumes "n \<in> set (Mapping.ordered_keys (rfields r))"
  shows "\<exists>before after. fst (synthesize h r) = before @ stage2_out r n @ after"
proof -
  obtain ys zs where k: "Mapping.ordered_keys (rfields r) = ys @ n # zs"
    using assms by (auto dest: split_list)
  have "fst (synthesize h r)
      = (fst (fold stage1_step (sort_key di_oldName (definitions r)) ([], h))
           @ concat (map (stage2_out r) ys))
        @ stage2_out r n
        @ (concat (map (stage2_out r) zs)
           @ concat (map (stage3_step r) (Mapping.ordered_keys (enumValues r)))
           @ concat (map (stage4_step r) (Mapping.ordered_keys (extraImplements r)))
           @ concat (map (stage5_step r) (Mapping.ordered_keys (extraUnionMembers r))))"
    by (simp add: synthesize_eq overlayExtensions_def k)
  then show ?thesis by blast
qed

lemma oldFieldPure_Name [simp]: "fd_Name (oldFieldPure kind fieldInfo) = fi_oldName fieldInfo"
  by (simp add: oldFieldPure_def oldFieldOf_def Let_def)

lemma renamedFields_oldNames:
  "def_Kind d \<in> {Object, InputObject, Interface} \<Longrightarrow>
   map fi_oldName (renamedFields d)
     = List.map_filter (\<lambda>field. map_option OldName (markerOf (fd_Directives field))) (def_Fields d)"
proof -
  have "map fi_oldName (concat (map fieldInfos fs))
      = List.map_filter (\<lambda>field. map_option OldName (markerOf (fd_Directives field))) fs" for fs
    by (induction fs) (simp_all add: fieldInfos_def List.map_filter_simps split: option.splits)
  then show "def_Kind d \<in> {Object, InputObject, Interface} \<Longrightarrow> ?thesis"
    by (simp add: renamedFields_def)
qed

lemma renamedFields_kind:
  "renamedFields d \<noteq> [] \<Longrightarrow> def_Kind d \<in> {Object, InputObject, Interface}"
  by (simp add: renamedFields_def split: if_splits)

subsection \<open>The regular expression matches whole words\<close>

lemma tokens_word_run:
  "is_word_char c \<Longrightarrow>
     tokens (c # cs) = (c # takeWhile is_word_char cs) # tokens (dropWhile is_word_char cs)"
proof (induction cs arbitrary: c)
  case Nil
  then show ?case by simp
next
  case (Cons d ds)
  show ?case
  proof (cases "is_word_char d")
    case True
    then show ?thesis using Cons.prems Cons.IH [of d] by simp
  next
    case False
    then show ?thesis using Cons.prems by simp
  qed
qed

lemma tokens_other: "\<not> is_word_char c \<Longrightarrow> tokens (c # cs) = [c] # tokens cs"
  by simp

lemma concat_tokens: "concat (tokens s) = s"
proof (induction s rule: length_induct)
  case (1 s)
  show ?case
  proof (cases s)
    case Nil
    then show ?thesis by simp
  next
    case (Cons c cs)
    show ?thesis
    proof (cases "is_word_char c")
      case True
      have "length (dropWhile is_word_char cs) < length s"
        using Cons by (simp add: length_dropWhile_le le_imp_less_Suc)
      then have "concat (tokens (dropWhile is_word_char cs)) = dropWhile is_word_char cs"
        using 1 by blast
      then show ?thesis using True Cons by (simp only: tokens_word_run) simp
    next
      case False
      have "concat (tokens cs) = cs" using 1 Cons by simp
      then show ?thesis using False Cons by simp
    qed
  qed
qed

lemma rewriteWords_absent: "word \<notin> set (tokens s) \<Longrightarrow> rewriteWords word replacement s = s"
proof -
  assume "word \<notin> set (tokens s)"
  then have "map (\<lambda>t. if t = word then replacement else t) (tokens s) = tokens s"
    by (intro map_idI) auto
  then show ?thesis by (simp add: rewriteWords_def concat_tokens)
qed

text \<open>No match begins where a word character follows a word character, and none where
  the text begins with another byte.\<close>

lemma is_name_Cons: "is_name w \<Longrightarrow> \<exists>x xs. w = x # xs \<and> is_word_char x"
  by (cases w) (simp_all add: is_name_def)

lemma no_match_inside:
  assumes "is_name w" "is_word_opt prev" "is_word_char c"
  shows "\<not> matchesAt prev (c # cs) w"
  using assms by (simp add: matchesAt_def)

lemma no_match_other:
  assumes "is_name w" "\<not> is_word_char c"
  shows "\<not> matchesAt prev (c # cs) w"
proof
  assume "matchesAt prev (c # cs) w"
  then have t: "take (length w) (c # cs) = w" by (simp add: matchesAt_def)
  obtain x xs where w: "w = x # xs" "is_word_char x" using is_name_Cons [OF assms(1)] by blast
  from t w have "c = x" by simp
  then show False using w assms(2) by simp
qed

lemma no_match_Nil: "is_name w \<Longrightarrow> \<not> matchesAt prev [] w"
  by (auto simp add: matchesAt_def is_name_def)

lemma takeWhile_name:
  assumes "\<forall>c \<in> set w. is_word_char c" "\<not> is_word_opt (first_opt rest)"
  shows "takeWhile is_word_char (w @ rest) = w"
proof -
  have "takeWhile is_word_char rest = []" using assms(2) by (cases rest) simp_all
  then show ?thesis using assms(1) by (simp add: takeWhile_append2)
qed

lemma first_opt_dropWhile: "\<not> is_word_opt (first_opt (dropWhile is_word_char cs))"
  by (induction cs) simp_all

text \<open>At the start of a token that is a word, the pattern matches exactly when the token
  is the name.\<close>

lemma match_at_token:
  assumes "is_name w" "\<not> is_word_opt prev" "is_word_char c"
  shows "matchesAt prev (c # cs) w = (c # takeWhile is_word_char cs = w)"
proof
  assume m: "matchesAt prev (c # cs) w"
  have t: "take (length w) (c # cs) = w" using m by (simp add: matchesAt_def)
  have wne: "w \<noteq> []" and ww: "\<forall>c \<in> set w. is_word_char c"
    using assms(1) by (simp_all add: is_name_def)
  have "is_word_char (last w)" using wne ww by simp
  then have nx: "\<not> is_word_opt (first_opt (drop (length w) (c # cs)))"
    using m wne by (simp add: matchesAt_def)
  have "c # cs = w @ drop (length w) (c # cs)" using t by (metis append_take_drop_id)
  then have "takeWhile is_word_char (c # cs) = w"
    using takeWhile_name [OF ww nx] by simp
  then show "c # takeWhile is_word_char cs = w" using assms(3) by simp
next
  assume e: "c # takeWhile is_word_char cs = w"
  have s: "c # cs = w @ dropWhile is_word_char cs"
    using e by (metis append_Cons takeWhile_dropWhile_id)
  have wne: "w \<noteq> []" using e by auto
  have lw: "is_word_char (last w)" using assms(1) wne by (simp add: is_name_def)
  have "take (length w) (c # cs) = w" by (subst s) simp
  moreover have "drop (length w) (c # cs) = dropWhile is_word_char cs" by (subst s) simp
  ultimately show "matchesAt prev (c # cs) w"
    using assms(2,3) wne lw first_opt_dropWhile [of cs] by (simp add: matchesAt_def)
qed

lemma replaceFrom_skip:
  "replaceFrom (length xs) p (xs @ ys) w r
     = replaceFrom 0 (if xs = [] then p else Some (last xs)) ys w r"
  by (induction xs arbitrary: p) simp_all

lemma replaceFrom_inside:
  assumes "is_name w" "is_word_opt p" "\<forall>c \<in> set xs. is_word_char c"
  shows "replaceFrom 0 p (xs @ ys) w r
     = xs @ replaceFrom 0 (if xs = [] then p else Some (last xs)) ys w r"
  using assms(2,3)
proof (induction xs arbitrary: p)
  case Nil
  then show ?case by simp
next
  case (Cons x xs)
  have nm: "\<not> matchesAt p (x # xs @ ys) w"
    using no_match_inside [OF assms(1) Cons.prems(1)] Cons.prems(2) by simp
  have "replaceFrom 0 (Some x) (xs @ ys) w r
      = xs @ replaceFrom 0 (if xs = [] then Some x else Some (last xs)) ys w r"
    using Cons.IH [of "Some x"] Cons.prems(2) by simp
  then show ?case using nm by simp
qed

lemma findFrom_inside:
  assumes "is_name w" "is_word_opt p" "\<forall>c \<in> set xs. is_word_char c"
  shows "findFrom p (xs @ ys) w = findFrom (if xs = [] then p else Some (last xs)) ys w"
  using assms(2,3)
proof (induction xs arbitrary: p)
  case Nil
  then show ?case by simp
next
  case (Cons x xs)
  have nm: "\<not> matchesAt p (x # xs @ ys) w"
    using no_match_inside [OF assms(1) Cons.prems(1)] Cons.prems(2) by simp
  have "findFrom (Some x) (xs @ ys) w
      = findFrom (if xs = [] then Some x else Some (last xs)) ys w"
    using Cons.IH [of "Some x"] Cons.prems(2) by simp
  then show ?case using nm by simp
qed

lemma replaceFrom_rewriteWords:
  assumes "is_name w"
  shows "\<not> (is_word_opt prev \<and> is_word_opt (first_opt s))
     \<Longrightarrow> replaceFrom 0 prev s w r = rewriteWords w r s"
proof (induction s arbitrary: prev rule: length_induct)
  case (1 s)
  show ?case
  proof (cases s)
    case Nil
    then show ?thesis by (simp add: rewriteWords_def)
  next
    case (Cons c cs)
    show ?thesis
    proof (cases "is_word_char c")
      case False
      have nm: "\<not> matchesAt prev (c # cs) w" by (rule no_match_other [OF assms False])
      have "[c] \<noteq> w" using assms False by (auto simp add: is_name_def)
      moreover have "replaceFrom 0 (Some c) cs w r = rewriteWords w r cs"
        using 1(1) Cons False by simp
      ultimately show ?thesis using Cons False nm by (simp add: rewriteWords_def)
    next
      case True
      define run where "run = takeWhile is_word_char cs"
      define rest where "rest = dropWhile is_word_char cs"
      have cs: "cs = run @ rest" by (simp add: run_def rest_def)
      have runw: "\<forall>x \<in> set run. is_word_char x"
        unfolding run_def by (auto dest: set_takeWhileD)
      have np: "\<not> is_word_opt prev" using 1(2) Cons True by simp
      have tk: "tokens s = (c # run) # tokens rest"
        using Cons True by (simp only: tokens_word_run run_def rest_def)
      have lr: "length rest < length s" using Cons cs by simp
      have lastw: "is_word_opt (Some (last (c # run)))"
        using True runw by (cases run) (simp_all add: last_in_set)
      have ih: "replaceFrom 0 (Some (last (c # run))) rest w r = rewriteWords w r rest"
        using 1(1) lr first_opt_dropWhile [of cs] by (simp add: rest_def)
      show ?thesis
      proof (cases "c # run = w")
        case eq: True
        have m: "matchesAt prev (c # cs) w"
          using match_at_token [OF assms np True, of cs] eq by (simp add: run_def)
        have len: "length w - 1 = length run" using eq by auto
        have "replaceFrom (length run) (Some c) (run @ rest) w r
            = replaceFrom 0 (Some (last (c # run))) rest w r"
          by (simp add: replaceFrom_skip)
        then have "replaceFrom 0 prev s w r = r @ rewriteWords w r rest"
          using Cons m len cs ih by simp
        then show ?thesis using tk eq by (simp add: rewriteWords_def)
      next
        case ne: False
        have nm: "\<not> matchesAt prev (c # cs) w"
          using match_at_token [OF assms np True, of cs] ne by (simp add: run_def)
        have "replaceFrom 0 (Some c) (run @ rest) w r
            = run @ replaceFrom 0 (Some (last (c # run))) rest w r"
          using replaceFrom_inside [OF assms _ runw, of "Some c" rest r] True by simp
        then have "replaceFrom 0 prev s w r = (c # run) @ rewriteWords w r rest"
          using Cons nm cs ih by simp
        then show ?thesis using tk ne by (simp add: rewriteWords_def)
      qed
    qed
  qed
qed

lemma findFrom_tokens:
  assumes "is_name w"
  shows "\<not> (is_word_opt prev \<and> is_word_opt (first_opt s))
     \<Longrightarrow> findFrom prev s w = (w \<in> set (tokens s))"
proof (induction s arbitrary: prev rule: length_induct)
  case (1 s)
  show ?case
  proof (cases s)
    case Nil
    then show ?thesis using no_match_Nil [OF assms] by simp
  next
    case (Cons c cs)
    show ?thesis
    proof (cases "is_word_char c")
      case False
      have nm: "\<not> matchesAt prev (c # cs) w" by (rule no_match_other [OF assms False])
      have "[c] \<noteq> w" using assms False by (auto simp add: is_name_def)
      moreover have "findFrom (Some c) cs w = (w \<in> set (tokens cs))"
        using 1(1) Cons False by simp
      ultimately show ?thesis using Cons False nm by auto
    next
      case True
      define run where "run = takeWhile is_word_char cs"
      define rest where "rest = dropWhile is_word_char cs"
      have cs: "cs = run @ rest" by (simp add: run_def rest_def)
      have runw: "\<forall>x \<in> set run. is_word_char x"
        unfolding run_def by (auto dest: set_takeWhileD)
      have np: "\<not> is_word_opt prev" using 1(2) Cons True by simp
      have tk: "tokens s = (c # run) # tokens rest"
        using Cons True by (simp only: tokens_word_run run_def rest_def)
      have lr: "length rest < length s" using Cons cs by simp
      have ih: "findFrom (Some (last (c # run))) rest w = (w \<in> set (tokens rest))"
        using 1(1) lr first_opt_dropWhile [of cs] by (simp add: rest_def)
      have m: "matchesAt prev (c # cs) w = (c # run = w)"
        using match_at_token [OF assms np True, of cs] by (simp add: run_def)
      have "findFrom (Some c) (run @ rest) w = findFrom (Some (last (c # run))) rest w"
        using findFrom_inside [OF assms _ runw, of "Some c" rest] True by simp
      then have "findFrom prev s w = (c # run = w \<or> w \<in> set (tokens rest))"
        using Cons m cs ih by simp
      then show ?thesis using tk by auto
    qed
  qed
qed

lemma replaceExactWord_rewriteWords:
  "is_name w \<Longrightarrow> replaceExactWord s w r = rewriteWords w r s"
  using replaceFrom_rewriteWords [of w None s r] by (simp add: replaceExactWord_def is_name_def)

lemma containsExactWord_tokens:
  "is_name w \<Longrightarrow> containsExactWord s w = (w \<in> set (tokens s))"
  using findFrom_tokens [of w None s] by (simp add: containsExactWord_def is_name_def)

lemma updateKeys_whole_words:
  assumes "is_name (fd_Name (fi_field fieldInfo))"
  shows "updateKeys fieldInfo keys
     = map (\<lambda>(key, u).
              if fd_Name (fi_field fieldInfo) \<in> set (tokens key)
              then (rewriteWords (fd_Name (fi_field fieldInfo)) (fi_oldName fieldInfo) key, True)
              else (key, u)) keys"
  by (simp add: updateKeys_def containsExactWord_tokens [OF assms]
      replaceExactWord_rewriteWords [OF assms] cong: if_cong)

lemma extensionsFor_directives:
  "map (def_Directives \<circ> fst) (extensionsFor kind fs names keys)
     = map (\<lambda>i. keyDirectives ((fold updateKeys fs ^^ Suc i) keys)) [0..<length names]"
proof (induction names arbitrary: keys)
  case Nil
  show ?case by simp
next
  case (Cons n ns)
  have "map (\<lambda>i. keyDirectives ((fold updateKeys fs ^^ Suc i) keys)) [0..<length (n # ns)]
      = keyDirectives (fold updateKeys fs keys)
        # map (\<lambda>i. keyDirectives ((fold updateKeys fs ^^ Suc i) (fold updateKeys fs keys)))
            [0..<length ns]"
    by (simp add: map_upt_Suc funpow_swap1 del: upt_Suc)
  then show ?case using Cons [of "fold updateKeys fs keys"] by (simp add: emptyDefinition_def)
qed

subsection \<open>Type rewriting keeps the shape\<close>







subsection \<open>Failure of indexing\<close>

text \<open>
  C1, as stated, fails. \<^verbatim>\<open>GetReplacesDirectiveUpdates\<close> calls \<^verbatim>\<open>getSchemaAdditions\<close>
  whatever \<^verbatim>\<open>processSchema\<close> recorded, and looks at the errors only afterwards. In the
  schema below indexing records one error (a type override on the marker of
  \<^verbatim>\<open>Classroom\<close>); the list returned has a second one, "name required on @replaces
  directive", for the marker on the argument of the renamed field \<^verbatim>\<open>User.classroom\<close>:
  only synthesis reads the markers on the arguments of a renamed field.
\<close>

theorem synthesis_runs_after_failed_indexing:
  "errors (processSchema [classroomWithType, userWithNamelessMarker] [0, 1] [0, 1] NewReplacer)
     = [WrapWithFields InvalidInput
          [(''message'', ''@replaces directive on definitions can only use `name` argument''),
           (''definition'', ''Classroom'')]]
   \<and> fst (GetReplacesDirectiveUpdates renderNames
             [classroomWithType, userWithNamelessMarker] [0, 1] [0, 1])
     = ([], Some (WrapErrorList InvalidInput
          [WrapWithFields InvalidInput
             [(''message'', ''@replaces directive on definitions can only use `name` argument''),
              (''definition'', ''Classroom'')],
           Wrap Internal ''name required on @replaces directive'']))"
  by code_simp

text \<open>
  C1, amended. For every schema on which indexing accumulates at least one error,
  \<^verbatim>\<open>GetReplacesDirectiveUpdates\<close> returns the empty string and a non-nil error of kind
  InvalidInput; synthesis does run, its text is dropped, and the error list returned is
  the list of indexing followed by the errors synthesis recorded. So no caller sees
  generated text together with an error.
\<close>

theorem failed_indexing_returns_no_text:
  assumes "errors (processSchema h types1 types2 NewReplacer) \<noteq> []"
  shows "fst (GetReplacesDirectiveUpdates render h types1 types2)
     = ([], Some (WrapErrorList InvalidInput
          (errors (processSchema h types1 types2 NewReplacer)
           @ synthesisErrors (processSchema h types1 types2 NewReplacer))))"
  using assms
  by (simp add: GetReplacesDirectiveUpdates_def Let_def getSchemaAdditions_eq)

theorem failed_indexing_returns_no_text_witness:
  "errors (processSchema [classroomWithType] [0] [0] NewReplacer) \<noteq> []
   \<and> fst (GetReplacesDirectiveUpdates renderNames [classroomWithType] [0] [0])
     = ([], Some (WrapErrorList InvalidInput
          [WrapWithFields InvalidInput
             [(''message'', ''@replaces directive on definitions can only use `name` argument''),
              (''definition'', ''Classroom'')]]))"
proof -
  have e: "errors (processSchema [classroomWithType] [0] [0] NewReplacer)
     = [WrapWithFields InvalidInput
          [(''message'', ''@replaces directive on definitions can only use `name` argument''),
           (''definition'', ''Classroom'')]]"
    by code_simp
  have s: "synthesisErrors (processSchema [classroomWithType] [0] [0] NewReplacer) = []"
    by code_simp
  show ?thesis
    using failed_indexing_returns_no_text [of "[classroomWithType]" "[0]" "[0]" renderNames]
    by (simp add: e s)
qed

subsection \<open>The description of a shadow definition\<close>

text \<open>
  The test of \<^verbatim>\<open>_definitionHasExtends\<close>, a scan from the end of the text before the
  name, accepts the texts that end with the word \<^verbatim>\<open>extend\<close>, one or more spaces or
  tabs, a word, and white space: the pattern \<^verbatim>\<open>\bextend[ \t]+\w+\s+$\<close>, read on the
  last 25 bytes before the name.
\<close>

lemma word_not_space: "is_word_char c \<Longrightarrow> \<not> is_space c"
  by (auto simp add: is_word_char_def is_space_def)

lemma blank_not_word: "is_blank c \<Longrightarrow> \<not> is_word_char c"
  by (auto simp add: is_word_char_def is_blank_def)

lemma takeWhile_block:
  assumes "\<forall>c \<in> set xs. P c" "ys = [] \<or> \<not> P (hd ys)"
  shows "takeWhile P (xs @ ys) = xs" and "dropWhile P (xs @ ys) = ys"
proof -
  have t: "takeWhile P ys = []" and d: "dropWhile P ys = ys"
    using assms(2) by (cases ys; simp)+
  show "takeWhile P (xs @ ys) = xs" using assms(1) t by (simp add: takeWhile_append2)
  show "dropWhile P (xs @ ys) = ys" using assms(1) d by (simp add: dropWhile_append2)
qed

lemma endsWithExtend_matches:
  assumes "endsWithExtend w"
  shows "extendRegex_matches w"
proof -
  obtain u bl kw ws where w: "w = u @ ''extend'' @ bl @ kw @ ws"
    and u: "u = [] \<or> \<not> is_word_char (last u)"
    and bl: "bl \<noteq> []" "\<forall>c \<in> set bl. is_blank c"
    and kw: "kw \<noteq> []" "\<forall>c \<in> set kw. is_word_char c"
    and ws: "ws \<noteq> []" "\<forall>c \<in> set ws. is_space c"
    using assms unfolding endsWithExtend_def by blast
  have r: "rev w = rev ws @ (rev kw @ (rev bl @ (rev ''extend'' @ rev u)))"
    unfolding w by simp
  have h1: "hd (rev kw @ (rev bl @ (rev ''extend'' @ rev u))) = last kw"
    using kw(1) by (simp add: hd_rev)
  have h2: "hd (rev bl @ (rev ''extend'' @ rev u)) = last bl"
    using bl(1) by (simp add: hd_rev)
  have s1: "takeWhile is_space (rev w) = rev ws"
    and d1: "dropWhile is_space (rev w) = rev kw @ (rev bl @ (rev ''extend'' @ rev u))"
    unfolding r using ws(2) kw h1 word_not_space
    by (intro takeWhile_block; simp)+
  have s2: "takeWhile is_word_char (rev kw @ (rev bl @ (rev ''extend'' @ rev u))) = rev kw"
    and d2: "dropWhile is_word_char (rev kw @ (rev bl @ (rev ''extend'' @ rev u)))
           = rev bl @ (rev ''extend'' @ rev u)"
    using kw(2) bl h2 blank_not_word
    by (intro takeWhile_block; simp)+
  have nb: "\<not> is_blank (hd (rev ''extend'' @ rev u))" by (simp add: is_blank_def)
  have s3: "takeWhile is_blank (rev bl @ (rev ''extend'' @ rev u)) = rev bl"
    and d3: "dropWhile is_blank (rev bl @ (rev ''extend'' @ rev u)) = rev ''extend'' @ rev u"
    using bl(2) nb by (intro takeWhile_block; simp)+
  have t: "take 6 (rev ''extend'' @ rev u) = rev ''extend''" by simp
  have dr: "drop 6 (rev ''extend'' @ rev u) = rev u" by simp
  have tl: "(case rev u of [] \<Rightarrow> True | c # cs \<Rightarrow> \<not> is_word_char c)"
    using u by (cases u rule: rev_cases) simp_all
  show ?thesis
    unfolding extendRegex_matches_def Let_def s1 d1 s2 d2 s3 d3 t dr
    using ws(1) kw(1) bl(1) tl by simp
qed

lemma matches_endsWithExtend:
  assumes "extendRegex_matches w"
  shows "endsWithExtend w"
proof -
  define r where "r = rev w"
  define r1 where "r1 = dropWhile is_space r"
  define r2 where "r2 = dropWhile is_word_char r1"
  define r3 where "r3 = dropWhile is_blank r2"
  have c: "takeWhile is_space r \<noteq> []" "takeWhile is_word_char r1 \<noteq> []"
    "takeWhile is_blank r2 \<noteq> []" "take 6 r3 = rev ''extend''"
    "(case drop 6 r3 of [] \<Rightarrow> True | c # cs \<Rightarrow> \<not> is_word_char c)"
    using assms unfolding extendRegex_matches_def Let_def r_def r1_def r2_def r3_def by simp_all
  have "r = takeWhile is_space r @ r1" by (simp add: r1_def)
  also have "r1 = takeWhile is_word_char r1 @ r2" by (simp add: r2_def)
  also have "r2 = takeWhile is_blank r2 @ r3" by (simp add: r3_def)
  also have "r3 = rev ''extend'' @ drop 6 r3" using c(4) by (metis append_take_drop_id)
  finally have "rev r = rev (drop 6 r3) @ ''extend'' @ rev (takeWhile is_blank r2)
      @ rev (takeWhile is_word_char r1) @ rev (takeWhile is_space r)"
    by (metis (no_types, lifting) append.assoc rev_append rev_rev_ident)
  then have w: "w = rev (drop 6 r3) @ ''extend'' @ rev (takeWhile is_blank r2)
      @ rev (takeWhile is_word_char r1) @ rev (takeWhile is_space r)"
    by (simp add: r_def)
  have u: "rev (drop 6 r3) = [] \<or> \<not> is_word_char (last (rev (drop 6 r3)))"
    using c(5) by (cases "drop 6 r3") (simp_all add: last_rev)
  show ?thesis
    unfolding endsWithExtend_def
    apply (rule exI [of _ "rev (drop 6 r3)"])
    apply (rule exI [of _ "rev (takeWhile is_blank r2)"])
    apply (rule exI [of _ "rev (takeWhile is_word_char r1)"])
    apply (rule exI [of _ "rev (takeWhile is_space r)"])
    using w u c(1,2,3) by (auto dest: set_takeWhileD)
qed

lemma extendRegex_matches_iff: "extendRegex_matches w = endsWithExtend w"
  using endsWithExtend_matches matches_endsWithExtend by blast

lemma definitionHasExtends_iff:
  assumes "def_Position d = Some p" "0 \<le> pos_Start p" "pos_Start p \<le> int (length (pos_Input p))"
  shows "definitionHasExtends d = endsWithExtend (lookBack (textBeforeName p))"
proof -
  define s where "s = nat (pos_Start p)"
  have sl: "s \<le> length (pos_Input p)" using assms(2,3) by (simp add: s_def)
  have ps: "pos_Start p = int s" using assms(2) by (simp add: s_def)
  have lb: "lookBack (textBeforeName p) = drop (s - 25) (take s (pos_Input p))"
    using sl by (simp add: lookBack_def textBeforeName_def s_def [symmetric] min_def)
  have "(if int s - 25 < 0 then take (nat (25 + (int s - 25))) (drop 0 (pos_Input p))
         else take 25 (drop (nat (int s - 25)) (pos_Input p)))
      = drop (s - 25) (take s (pos_Input p))"
  proof (cases "s < 25")
    case True
    then show ?thesis by simp
  next
    case False
    then have "nat (int s - 25) = s - 25" by simp
    moreover have "drop (s - 25) (take s (pos_Input p)) = take 25 (drop (s - 25) (pos_Input p))"
      using False by (simp add: drop_take)
    ultimately show ?thesis using False by simp
  qed
  then show ?thesis
    using assms(1)
    by (simp add: definitionHasExtends_def Let_def ps lb extendRegex_matches_iff
        split: if_splits)
qed

text \<open>The clones of stage 1, when no definition is recorded twice.\<close>

lemma fold_stage1_step:
  "distinct (map di_definition dis) \<Longrightarrow>
   fst (fold stage1_step dis (out, h))
     = out @ map (\<lambda>di. (oldDefinitionOf (h ! di_definition di) (di_oldName di),
                          definitionHasExtends (h ! di_definition di)))
               (filter (\<lambda>di. di_definition di < length h) dis)"
proof (induction dis arbitrary: out h)
  case Nil
  show ?case by simp
next
  case (Cons di dis)
  show ?case
  proof (cases "di_definition di < length h")
    case False
    then have "stage1_step di (out, h) = (out, h)" by (simp add: stage1_step_def)
    then show ?thesis using Cons False by simp
  next
    case True
    define h' where
      "h' = h[di_definition di :=
                (h ! di_definition di)\<lparr>def_EnumValues :=
                   map stripEnumValue (def_EnumValues (h ! di_definition di))\<rparr>]"
    have st: "stage1_step di (out, h)
        = (out @ [(oldDefinitionOf (h ! di_definition di) (di_oldName di),
                   definitionHasExtends (h ! di_definition di))], h')"
      using True by (simp add: stage1_step_def Let_def h'_def)
    have same: "h' ! di_definition d = h ! di_definition d" if "d \<in> set dis" for d
    proof -
      have "di_definition di \<noteq> di_definition d" using Cons.prems that by auto
      then show ?thesis unfolding h'_def by (rule nth_list_update_neq)
    qed
    have len: "length h' = length h" by (simp add: h'_def)
    have "map (\<lambda>d. (oldDefinitionOf (h' ! di_definition d) (di_oldName d),
                     definitionHasExtends (h' ! di_definition d)))
            (filter (\<lambda>d. di_definition d < length h') dis)
        = map (\<lambda>d. (oldDefinitionOf (h ! di_definition d) (di_oldName d),
                     definitionHasExtends (h ! di_definition d)))
            (filter (\<lambda>d. di_definition d < length h) dis)"
      using same by (simp add: len cong: map_cong)
    then show ?thesis using Cons st True by simp
  qed
qed

lemma recordedDefinitions_addresses:
  "map di_definition (concat (map (recordedDefinitions h) types))
     = filter (\<lambda>a. a < length h \<and> markerOf (def_Directives (h ! a)) \<noteq> None) types"
  by (induction types)
     (auto simp add: recordedDefinitions_def definitionInfos_def split: option.splits)

lemma recorded_addresses_valid:
  "di \<in> set (concat (map (recordedDefinitions h) types)) \<Longrightarrow> di_definition di < length h"
  by (auto simp add: recordedDefinitions_def definitionInfos_def split: if_splits option.splits)

lemma definitions_stage:
  assumes "distinctNames h types1"
    and "r = processSchema h types1 types2 NewReplacer"
  shows "fst (synthesize h r)
     = map (\<lambda>di. (oldDefinitionOf (h ! di_definition di) (di_oldName di),
                    definitionHasExtends (h ! di_definition di)))
           (sort_key di_oldName (concat (map (recordedDefinitions h) types1)))
       @ overlayExtensions r"
proof -
  have n: "\<not> hasProcessedSchema NewReplacer" by (simp add: NewReplacer_def)
  have rd: "definitions r = concat (map (recordedDefinitions h) types1)"
    unfolding assms(2) processSchema_eq [OF n] by (simp add: NewReplacer_def)
  have "distinct types1" using assms(1) by (simp add: distinctNames_def)
  then have d: "distinct (map di_definition (definitions r))"
    unfolding rd recordedDefinitions_addresses by simp
  let ?s = "sort_key di_oldName (definitions r)"
  have ds: "distinct (map di_definition ?s)"
    using d by (metis distinct_map distinct_sort set_sort)
  have "\<And>di. di \<in> set ?s \<Longrightarrow> di_definition di < length h"
    using recorded_addresses_valid [of _ h types1] by (simp add: rd)
  then have f: "filter (\<lambda>di. di_definition di < length h) ?s = ?s"
    by (simp only: filter_id_conv) simp
  have "fst (fold stage1_step ?s ([], h))
      = map (\<lambda>di. (oldDefinitionOf (h ! di_definition di) (di_oldName di),
                     definitionHasExtends (h ! di_definition di))) ?s"
    using fold_stage1_step [OF ds, of "[]" h] by (simp only: f append_Nil)
  then show ?thesis by (simp add: synthesize_eq rd)
qed

text \<open>
  C3, as stated, fails: a declaration that uses \<^verbatim>\<open>extend\<close> is not always emitted as
  an extension. The pattern wants spaces or tabs between \<^verbatim>\<open>extend\<close> and the keyword
  of the definition ("We expect extend and the definition keyword to be on the same
  line"). For \<^verbatim>\<open>extend\<close>, a newline, and
  \<^verbatim>\<open>type Classroom @replaces(name: "StudentList") @test { id: String! }\<close> the text
  before the name is \<^verbatim>\<open>extend\<close>, the newline and \<^verbatim>\<open>type \<close>; the clone
  \<^verbatim>\<open>StudentList\<close> is emitted as a definition of its own, not as an extension, and it
  carries the description \<^verbatim>\<open>Deprecated: Replaced by Classroom.\<close>
\<close>

theorem extend_on_its_own_line_is_not_detected:
  "map_option textBeforeName (def_Position extendOnOwnLine)
     = Some (''extend'' @ [CHR 0x0A] @ ''type '')
   \<and> map (\<lambda>e. (def_Name (fst e), snd e, def_Description (fst e)))
        (fst (synthesize [extendOnOwnLine]
                (processSchema [extendOnOwnLine] [0] [0] NewReplacer)))
       = [(''StudentList'', False, ''Deprecated: Replaced by Classroom.'')]"
  by code_simp

text \<open>
  C3, amended. Whether the clone is an extension is decided on the text, not on the
  declaration: the last 25 bytes of the source before the name of the definition end
  with the word \<^verbatim>\<open>extend\<close>, one or more spaces or tabs, a word, and white space.
  Take a schema whose definitions have names of their own, and in it a definition that
  is renamed and whose position lies in its source text. Then the definitions stage
  (the first items of the overlay, one for each recorded definition) holds a clone
  under the old name, of the same kind and with the fields under their new names, such
  that: if the text before the name ends so and the definition has no description, the
  clone is emitted as an extension and has no description; if the text before the name
  does not end so, the clone is emitted as a definition of its own, and its description
  is the description of the definition, a newline and
  \<^verbatim>\<open>Deprecated: Replaced by <newName>.\<close>, or that sentence alone when the definition has
  no description.
\<close>

theorem shadow_clone_description:
  assumes "distinctNames h types1" and "a \<in> set types1" and "a < length h"
    and "markerOf (def_Directives (h ! a)) = Some replaceInfo"
    and "def_Position (h ! a) = Some p"
    and "0 \<le> pos_Start p" and "pos_Start p \<le> int (length (pos_Input p))"
    and "r = processSchema h types1 types2 NewReplacer"
  shows "\<exists>i clone extend.
       i < length (definitions r) \<and> i < length (fst (synthesize h r))
     \<and> fst (synthesize h r) ! i = (clone, extend)
     \<and> def_Name clone = OldName replaceInfo
     \<and> def_Kind clone = def_Kind (h ! a)
     \<and> map fd_Name (def_Fields clone) = map fd_Name (def_Fields (h ! a))
     \<and> (endsWithExtend (lookBack (textBeforeName p)) \<and> def_Description (h ! a) = []
          \<longrightarrow> extend \<and> def_Description clone = [])
     \<and> (\<not> endsWithExtend (lookBack (textBeforeName p))
          \<longrightarrow> \<not> extend
            \<and> def_Description clone
                = (if def_Description (h ! a) = []
                   then ''Deprecated: Replaced by '' @ def_Name (h ! a) @ ''.''
                   else def_Description (h ! a) @ [CHR 0x0A]
                        @ ''Deprecated: Replaced by '' @ def_Name (h ! a) @ ''.''))"
proof -
  have n: "\<not> hasProcessedSchema NewReplacer" by (simp add: NewReplacer_def)
  have rd: "definitions r = concat (map (recordedDefinitions h) types1)"
    unfolding assms(8) processSchema_eq [OF n] by (simp add: NewReplacer_def)
  let ?di = "\<lparr>di_definition = a, di_oldName = OldName replaceInfo\<rparr>"
  let ?s = "sort_key di_oldName (concat (map (recordedDefinitions h) types1))"
  let ?f = "\<lambda>di. (oldDefinitionOf (h ! di_definition di) (di_oldName di),
                    definitionHasExtends (h ! di_definition di))"
  let ?clone = "oldDefinitionOf (h ! a) (OldName replaceInfo)"
  have "?di \<in> set (recordedDefinitions h a)"
    using assms(3,4) by (simp add: recordedDefinitions_def definitionInfos_def)
  then have "?di \<in> set ?s" using assms(2) by auto
  then obtain i where i: "i < length ?s" "?s ! i = ?di"
    by (auto simp add: in_set_conv_nth simp del: length_sort set_sort)
  have ov: "fst (synthesize h r) = map ?f ?s @ overlayExtensions r"
    by (rule definitions_stage [OF assms(1,8)])
  have l1: "i < length (definitions r)" using i(1) by (simp add: rd)
  have l2: "i < length (fst (synthesize h r))" using i(1) unfolding ov by simp
  have "fst (synthesize h r) ! i = ?f (?s ! i)"
    unfolding ov using i(1) by (simp only: nth_append length_map if_True nth_map)
  then have at: "fst (synthesize h r) ! i = (?clone, definitionHasExtends (h ! a))"
    unfolding i(2) by simp
  have e: "definitionHasExtends (h ! a) = endsWithExtend (lookBack (textBeforeName p))"
    by (rule definitionHasExtends_iff [OF assms(5,6,7)])
  have c1: "def_Name ?clone = OldName replaceInfo"
    by (simp add: oldDefinitionOf_def Let_def)
  have c2: "def_Kind ?clone = def_Kind (h ! a)"
    by (simp add: oldDefinitionOf_def Let_def)
  have c3: "map fd_Name (def_Fields ?clone) = map fd_Name (def_Fields (h ! a))"
    by (simp add: oldDefinitionOf_def Let_def stripField_def)
  have c4: "endsWithExtend (lookBack (textBeforeName p)) \<and> def_Description (h ! a) = []
      \<longrightarrow> definitionHasExtends (h ! a) \<and> def_Description ?clone = []"
    using e by (simp add: oldDefinitionOf_def Let_def)
  have c5: "\<not> endsWithExtend (lookBack (textBeforeName p))
      \<longrightarrow> \<not> definitionHasExtends (h ! a)
        \<and> def_Description ?clone
            = (if def_Description (h ! a) = []
               then ''Deprecated: Replaced by '' @ def_Name (h ! a) @ ''.''
               else def_Description (h ! a) @ [CHR 0x0A]
                    @ ''Deprecated: Replaced by '' @ def_Name (h ! a) @ ''.'')"
    using e by (simp add: oldDefinitionOf_def Let_def)
  show ?thesis using l1 l2 at c1 c2 c3 c4 c5 by blast
qed

theorem shadow_clone_description_witness:
  \<open>distinctNames [extendedClassroom, describedClassroom] [0]
   \<and> distinctNames [extendedClassroom, describedClassroom] [1]
   \<and> map_option textBeforeName (def_Position extendedClassroom) = Some ''extend type ''
   \<and> endsWithExtend (lookBack ''extend type '')
   \<and> def_Description extendedClassroom = []
   \<and> map (\<lambda>e. (def_Name (fst e), snd e, def_Description (fst e)))
        (fst (synthesize [extendedClassroom, describedClassroom]
                (processSchema [extendedClassroom, describedClassroom] [0] [0] NewReplacer)))
       = [(''StudentList'', True, [])]
   \<and> map_option textBeforeName (def_Position describedClassroom)
       = Some (''"""This is a classroom."""'' @ [CHR 0x0A] @ ''type '')
   \<and> \<not> endsWithExtend (lookBack (''"""This is a classroom."""'' @ [CHR 0x0A] @ ''type ''))
   \<and> map (\<lambda>e. (def_Name (fst e), snd e, def_Description (fst e)))
        (fst (synthesize [extendedClassroom, describedClassroom]
                (processSchema [extendedClassroom, describedClassroom] [1] [1] NewReplacer)))
       = [(''StudentList'', False,
           ''This is a classroom.'' @ [CHR 0x0A] @ ''Deprecated: Replaced by Classroom.'')]\<close>
proof -
  let ?h = "[extendedClassroom, describedClassroom]"
  let ?p0 = \<open>\<lparr>pos_Start = 12,
     pos_Input = ''extend type Classroom @replaces(name: "StudentList") @test { id: String! }''\<rparr>\<close>
  let ?p1 = \<open>\<lparr>pos_Start = 32,
     pos_Input = ''"""This is a classroom."""'' @ [CHR 0x0A]
        @ ''type Classroom @replaces(name: "StudentList") @test { id: String! }''\<rparr>\<close>
  let ?ri = "\<lparr>OldName = ''StudentList'', OldTypeName = [],
             WasRequiredBeforeRename = False, TreatZeroAsUnset = False,
             TreatZeroAsUnsetPresent = False\<rparr>"
  let ?ov0 = "fst (synthesize ?h (processSchema ?h [0] [0] NewReplacer))"
  let ?ov1 = "fst (synthesize ?h (processSchema ?h [1] [1] NewReplacer))"
  have d0: "distinctNames ?h [0]" by code_simp
  have d1: "distinctNames ?h [1]" by code_simp
  have m0: "markerOf (def_Directives (?h ! 0)) = Some ?ri" by code_simp
  have m1: "markerOf (def_Directives (?h ! 1)) = Some ?ri" by code_simp
  have p0: "def_Position (?h ! 0) = Some ?p0" by code_simp
  have p1: "def_Position (?h ! 1) = Some ?p1" by code_simp
  have t0: "textBeforeName ?p0 = ''extend type ''" by code_simp
  have t1: \<open>textBeforeName ?p1 = ''"""This is a classroom."""'' @ [CHR 0x0A] @ ''type ''\<close>
    by code_simp
  have b0: "0 \<le> pos_Start ?p0" "pos_Start ?p0 \<le> int (length (pos_Input ?p0))" by simp_all
  have b1: "0 \<le> pos_Start ?p1" "pos_Start ?p1 \<le> int (length (pos_Input ?p1))" by simp_all
  have x0: "map_option textBeforeName (def_Position extendedClassroom) = Some ''extend type ''"
    by code_simp
  have x1: \<open>map_option textBeforeName (def_Position describedClassroom)
       = Some (''"""This is a classroom."""'' @ [CHR 0x0A] @ ''type '')\<close>
    by code_simp
  have n0: "def_Description (?h ! 0) = []" by code_simp
  have n1: "def_Description (?h ! 1) = ''This is a classroom.''" by code_simp
  have nm: "def_Name (?h ! 1) = ''Classroom''" by code_simp
  have l0: "length (definitions (processSchema ?h [0] [0] NewReplacer)) = 1" by code_simp
  have l1: "length (definitions (processSchema ?h [1] [1] NewReplacer)) = 1" by code_simp
  have k0: "length ?ov0 = 1" by code_simp
  have k1: "length ?ov1 = 1" by code_simp
  have h0: "definitionHasExtends (?h ! 0)" by code_simp
  have h1: "\<not> definitionHasExtends (?h ! 1)" by code_simp
  have e0: "endsWithExtend (lookBack ''extend type '')"
    using definitionHasExtends_iff [OF p0 b0] h0 unfolding t0 by simp
  have e1: \<open>\<not> endsWithExtend
      (lookBack (''"""This is a classroom."""'' @ [CHR 0x0A] @ ''type ''))\<close>
    using definitionHasExtends_iff [OF p1 b1] h1 unfolding t1 by simp
  obtain i clone extend where
    c0: "i < length (definitions (processSchema ?h [0] [0] NewReplacer))"
      "?ov0 ! i = (clone, extend)" "def_Name clone = OldName ?ri"
      "extend" "def_Description clone = []"
    using shadow_clone_description
      [where h = ?h and ?types1.0 = "[0]" and ?types2.0 = "[0]" and a = 0,
       OF d0 _ _ m0 p0 b0 refl] e0 n0
    unfolding t0 by auto
  have "i = 0" using c0(1) unfolding l0 by simp
  then have "?ov0 = [(clone, extend)]"
    using c0(2) k0 by (cases ?ov0) simp_all
  then have o0: "map (\<lambda>e. (def_Name (fst e), snd e, def_Description (fst e))) ?ov0
       = [(''StudentList'', True, [])]"
    using c0(3,4,5) by simp
  obtain j clone' extend' where
    c1: "j < length (definitions (processSchema ?h [1] [1] NewReplacer))"
      "?ov1 ! j = (clone', extend')" "def_Name clone' = OldName ?ri"
      "\<not> extend'"
      "def_Description clone'
         = (if def_Description (?h ! 1) = []
            then ''Deprecated: Replaced by '' @ def_Name (?h ! 1) @ ''.''
            else def_Description (?h ! 1) @ [CHR 0x0A]
                 @ ''Deprecated: Replaced by '' @ def_Name (?h ! 1) @ ''.'')"
    using shadow_clone_description
      [where h = ?h and ?types1.0 = "[1]" and ?types2.0 = "[1]" and a = 1,
       OF d1 _ _ m1 p1 b1 refl] e1
    unfolding t1 by auto
  have "j = 0" using c1(1) unfolding l1 by simp
  then have "?ov1 = [(clone', extend')]"
    using c1(2) k1 by (cases ?ov1) simp_all
  then have o1: "map (\<lambda>e. (def_Name (fst e), snd e, def_Description (fst e))) ?ov1
       = [(''StudentList'', False,
           ''This is a classroom.'' @ [CHR 0x0A] @ ''Deprecated: Replaced by Classroom.'')]"
    using c1(3,4) c1(5) [unfolded n1 nm] by simp
  have n0': "def_Description extendedClassroom = []" using n0 by simp
  show ?thesis using d0 d1 x0 e0 n0' o0 x1 e1 o1 by blast
qed

subsection \<open>Kinds of the accumulated errors\<close>

text \<open>
  C4. Three of the four violations are recorded with \<^verbatim>\<open>kind.InvalidInput\<close>; the
  fourth, a marker on an argument of a field that has none, is recorded with
  \<^verbatim>\<open>kind.Internal\<close>, which \<^verbatim>\<open>errors/kind\<close> documents as "the function failed for a
  reason unrelated to its input". On the schema of
  \<^verbatim>\<open>TestFieldMustBeReplacedIfArgumentReplaced\<close> the one error accumulated is Internal.
\<close>

theorem argument_rename_error_is_Internal:
  "errors (processSchema [userWithRenamedArgument] [0] [0] NewReplacer)
     = [WrapWithFields Internal
          [(''message'', ''@replaces directive on arguments can only be used on renamed fields''),
           (''type'', ''User''), (''field'', ''classroom''), (''argument'', ''teacherKaid'')]]"
  by code_simp

subsection \<open>What the first pass records for a definition\<close>

text \<open>
  C5, as stated, fails: a definition whose marker carries a type override gets its error
  and is recorded all the same, in \<^verbatim>\<open>r.definitions\<close> and in the table from new to old
  names (\<^verbatim>\<open>_processDefinition\<close> does not return after the error).
\<close>

theorem definition_with_type_override_is_recorded:
  "errors (processSchema [classroomWithType] [0] [0] NewReplacer)
     = [WrapWithFields InvalidInput
          [(''message'', ''@replaces directive on definitions can only use `name` argument''),
           (''definition'', ''Classroom'')]]
   \<and> definitions (processSchema [classroomWithType] [0] [0] NewReplacer)
     = [\<lparr>di_definition = 0, di_oldName = ''StudentList''\<rparr>]
   \<and> Mapping.lookup (cacheReplacedTypes (processSchema [classroomWithType] [0] [0] NewReplacer))
        ''Classroom'' = Some ''StudentList''"
  by code_simp

text \<open>
  C5, amended. During pass 1 every definition whose marker has a name is recorded as
  \<open>{definition, oldName}\<close> and its new name is mapped to the old one, with or without a type
  override; a type override adds one InvalidInput error to the list and nothing else. A
  definition without such a marker is not recorded.
\<close>

theorem marked_definition_is_recorded:
  "(case markerOf (def_Directives def) of
      Some replaceInfo \<Rightarrow>
        definitions (processDefinition a def r)
          = definitions r @ [\<lparr>di_definition = a, di_oldName = OldName replaceInfo\<rparr>]
        \<and> Mapping.lookup (cacheReplacedTypes (processDefinition a def r)) (def_Name def)
          = Some (OldName replaceInfo)
        \<and> errors (processDefinition a def r)
          = errors r @
            (if OldTypeName replaceInfo \<noteq> []
             then [WrapWithFields InvalidInput
                     [(''message'', ''@replaces directive on definitions can only use `name` argument''),
                      (''definition'', def_Name def)]]
             else [])
    | None \<Rightarrow>
        definitions (processDefinition a def r) = definitions r
        \<and> cacheReplacedTypes (processDefinition a def r) = cacheReplacedTypes r)"
  by (simp add: processDefinition_eq definitionInfos_def cacheUpdate_def definitionErrors_def
      split: option.splits)

theorem marked_definition_is_recorded_witness:
  "markerOf (def_Directives classroomWithType)
     = Some \<lparr>OldName = ''StudentList'', OldTypeName = ''StudentList'',
             WasRequiredBeforeRename = False, TreatZeroAsUnset = False,
             TreatZeroAsUnsetPresent = False\<rparr>
   \<and> definitions (processDefinition 0 classroomWithType NewReplacer)
     = [\<lparr>di_definition = 0, di_oldName = ''StudentList''\<rparr>]
   \<and> Mapping.lookup (cacheReplacedTypes (processDefinition 0 classroomWithType NewReplacer))
        ''Classroom'' = Some ''StudentList''"
proof -
  have m: "markerOf (def_Directives classroomWithType)
     = Some \<lparr>OldName = ''StudentList'', OldTypeName = ''StudentList'',
             WasRequiredBeforeRename = False, TreatZeroAsUnset = False,
             TreatZeroAsUnsetPresent = False\<rparr>"
    by code_simp
  have n: "def_Name classroomWithType = ''Classroom''" by code_simp
  show ?thesis
    using marked_definition_is_recorded [of 0 classroomWithType NewReplacer]
    by (simp add: m n NewReplacer_def)
qed

subsection \<open>The guards\<close>

text \<open>
  C6, as stated, fails in its last part: nothing guards a second synthesis. After
  indexing the end-to-end schema, \<^verbatim>\<open>getSchemaAdditions\<close> returns its text and no error,
  and called again on the same Replacer returns the same text and again no error.
\<close>

theorem second_synthesis_is_not_guarded:
  "fst (getSchemaAdditions renderNames [course] (processSchema [course] [0] [0] NewReplacer))
     = ''extend Course'' @ [CHR 0x0A]
   \<and> errors (fst (snd (getSchemaAdditions renderNames [course]
                 (processSchema [course] [0] [0] NewReplacer)))) = []
   \<and> fst (getSchemaAdditions renderNames [course]
        (fst (snd (getSchemaAdditions renderNames [course]
                 (processSchema [course] [0] [0] NewReplacer)))))
      = ''extend Course'' @ [CHR 0x0A]
   \<and> errors (fst (snd (getSchemaAdditions renderNames [course]
        (fst (snd (getSchemaAdditions renderNames [course]
                 (processSchema [course] [0] [0] NewReplacer))))))) = []"
  by code_simp

text \<open>
  C6, amended. Synthesis before indexing records the Internal error "must call
  processSchema before getSchemaAdditions", returns the empty text and changes nothing
  else; indexing on a Replacer that has indexed before records the Internal error
  "processSchema called multiple times" and leaves the indices as they are; and every
  Replacer that \<^verbatim>\<open>processSchema\<close> returns has indexed. A second synthesis is not guarded.
\<close>

theorem guards_of_synthesis_and_indexing:
  "(\<not> hasProcessedSchema r \<longrightarrow>
      getSchemaAdditions render h r
        = ([], r\<lparr>errors := errors r @
                    [Wrap Internal ''must call processSchema before getSchemaAdditions'']\<rparr>, h))
   \<and> (hasProcessedSchema r \<longrightarrow>
      processSchema h types1 types2 r
        = r\<lparr>errors := errors r @ [Wrap Internal ''processSchema called multiple times'']\<rparr>)
   \<and> hasProcessedSchema (processSchema h types1 types2 r)"
  by (simp add: getSchemaAdditions_def processSchema_def)

theorem guards_of_synthesis_and_indexing_witness:
  "\<not> hasProcessedSchema NewReplacer
   \<and> getSchemaAdditions renderNames [course] NewReplacer
        = ([], NewReplacer\<lparr>errors :=
                   [Wrap Internal ''must call processSchema before getSchemaAdditions'']\<rparr>, [course])
   \<and> hasProcessedSchema (processSchema [course] [0] [0] NewReplacer)
   \<and> processSchema [course] [0] [0] (processSchema [course] [0] [0] NewReplacer)
        = (processSchema [course] [0] [0] NewReplacer)
            \<lparr>errors := errors (processSchema [course] [0] [0] NewReplacer)
                         @ [Wrap Internal ''processSchema called multiple times'']\<rparr>"
  using guards_of_synthesis_and_indexing [of NewReplacer renderNames "[course]" "[0]" "[0]"]
    guards_of_synthesis_and_indexing
      [of "processSchema [course] [0] [0] NewReplacer" renderNames "[course]" "[0]" "[0]"]
  by (simp add: NewReplacer_def)

subsection \<open>Determinism\<close>

text \<open>
  C10, as stated, fails. \<^verbatim>\<open>schema.Types\<close> is a Go map, \<^verbatim>\<open>r.definitions\<close> is filled in
  the order the range loop visits it and is then sorted by old name only. Two definitions
  renamed from the same old name come out in the order of the visit: for the heap of
  \<^verbatim>\<open>Classroom\<close> and \<^verbatim>\<open>Group\<close>, both renamed from \<^verbatim>\<open>StudentList\<close>, the two orders of
  the map give two texts.
\<close>

theorem same_old_name_leaks_map_order:
  "fst (getSchemaAdditions renderNames [classroom, group]
          (processSchema [classroom, group] [0, 1] [0, 1] NewReplacer))
     = ''Deprecated: Replaced by Classroom.'' @ [CHR 0x0A] @ ''StudentList'' @ [CHR 0x0A]
       @ ''Deprecated: Replaced by Group.'' @ [CHR 0x0A] @ ''StudentList'' @ [CHR 0x0A]
       @ ''extend Classroom'' @ [CHR 0x0A] @ ''extend StudentList'' @ [CHR 0x0A]
   \<and> fst (getSchemaAdditions renderNames [classroom, group]
          (processSchema [classroom, group] [1, 0] [1, 0] NewReplacer))
     = ''Deprecated: Replaced by Group.'' @ [CHR 0x0A] @ ''StudentList'' @ [CHR 0x0A]
       @ ''Deprecated: Replaced by Classroom.'' @ [CHR 0x0A] @ ''StudentList'' @ [CHR 0x0A]
       @ ''extend Classroom'' @ [CHR 0x0A] @ ''extend StudentList'' @ [CHR 0x0A]
   \<and> map (def_Fields \<circ> fst) (fst (synthesize [classroom, group]
          (processSchema [classroom, group] [0, 1] [0, 1] NewReplacer)))
     \<noteq> map (def_Fields \<circ> fst) (fst (synthesize [classroom, group]
          (processSchema [classroom, group] [1, 0] [1, 0] NewReplacer)))"
  by code_simp

text \<open>
  C10, amended. For a schema whose definitions have names of their own (the keys of
  \<^verbatim>\<open>schema.Types\<close>) and whose renamed definitions have pairwise distinct old names, the
  overlay text does not depend on the order in which either loop of \<^verbatim>\<open>processSchema\<close>
  visits the map: any two orders give the same text from \<^verbatim>\<open>getSchemaAdditions\<close> and
  from \<^verbatim>\<open>GetReplacesDirectiveUpdates\<close>, whatever the formatter. Renamed definitions are
  sorted by old name, and the owners of renamed fields, of renamed enum values, of
  additional interfaces and of additional union members by new name.
\<close>

theorem overlay_is_deterministic:
  assumes "distinctNames h types1" and "distinctOldNames h types1"
    and "mset types1' = mset types1" and "mset types2 = mset types1"
    and "mset types2' = mset types1"
  shows "fst (getSchemaAdditions render h (processSchema h types1 types2 NewReplacer))
       = fst (getSchemaAdditions render h (processSchema h types1' types2' NewReplacer))
     \<and> fst (fst (GetReplacesDirectiveUpdates render h types1 types2))
       = fst (fst (GetReplacesDirectiveUpdates render h types1' types2'))"
proof -
  define r where "r = processSchema h types1 types2 NewReplacer"
  define r' where "r' = processSchema h types1' types2' NewReplacer"
  note ix = indices_perm [OF assms(1) assms(3) assms(4) assms(5) r_def r'_def]
  have ov: "overlayExtensions r = overlayExtensions r'"
    by (rule overlayExtensions_cong) (simp_all add: ix)
  have se: "synthesisErrors r = synthesisErrors r'"
    by (rule synthesisErrors_cong) (simp_all add: ix)
  have dr: "definitions r = concat (map (recordedDefinitions h) types1)" using ix by blast
  have "distinct (map di_oldName (definitions r))"
    using assms(2) by (simp add: distinctOldNames_def dr)
  moreover have "mset (definitions r) = mset (definitions r')" using ix by blast
  ultimately have so: "sort_key di_oldName (definitions r) = sort_key di_oldName (definitions r')"
    by (rule sort_key_perm [rotated])
  have hp: "hasProcessedSchema r" "hasProcessedSchema r'" using ix by blast+
  have ee: "(errors r = []) = (errors r' = [])" using ix by blast
  have g: "fst (getSchemaAdditions render h r) = fst (getSchemaAdditions render h r')"
    by (simp add: getSchemaAdditions_eq hp ov so)
  have "fst (fst (GetReplacesDirectiveUpdates render h types1 types2))
      = fst (fst (GetReplacesDirectiveUpdates render h types1' types2'))"
    unfolding GetReplacesDirectiveUpdates_def Let_def r_def [symmetric] r'_def [symmetric]
    using ee by (simp add: getSchemaAdditions_eq hp ov so se)
  with g show ?thesis by (simp add: r_def r'_def)
qed

theorem overlay_is_deterministic_witness:
  "distinctNames [classroom, course] [0, 1] \<and> distinctOldNames [classroom, course] [0, 1]
   \<and> mset [1, 0] = mset [0, 1::nat]
   \<and> fst (getSchemaAdditions renderNames [classroom, course]
            (processSchema [classroom, course] [0, 1] [0, 1] NewReplacer))
     = fst (getSchemaAdditions renderNames [classroom, course]
            (processSchema [classroom, course] [1, 0] [1, 0] NewReplacer))"
proof -
  have a: "distinctNames [classroom, course] [0, 1]" by code_simp
  have b: "distinctOldNames [classroom, course] [0, 1]" by code_simp
  have c: "mset [1, 0] = mset [0, 1::nat]" by simp
  have d: "mset [0, 1] = mset [0, 1::nat]" by (rule refl)
  show ?thesis
    using overlay_is_deterministic [OF a b c d c, of renderNames] a b c by blast
qed

subsection \<open>The doubling rule\<close>

text \<open>
  C9. Take a schema whose definitions have names of their own, and in it a definition
  with at least one renamed field. Then the overlay that synthesis emits holds, one after
  the other, the type extensions of the field-rename stage for this definition, and these
  are: if the definition is itself renamed, two, under the new name and then under the old
  name; if not, one, under the new name. Each is emitted as an extension, has the kind of
  the definition, and its fields are named by the old names of the renamed fields, in the
  order of the source.
\<close>

theorem field_extensions_are_doubled:
  assumes "distinctNames h types1" and "a \<in> set types1" and "a < length h"
    and "renamedFields (h ! a) \<noteq> []"
    and "r = processSchema h types1 types2 NewReplacer"
  shows "\<exists>before exts after.
       fst (synthesize h r) = before @ exts @ after
     \<and> fst (stage2_step (def_Name (h ! a)) (out, r)) = out @ exts
     \<and> map (def_Name \<circ> fst) exts
         = (case markerOf (def_Directives (h ! a)) of
              None \<Rightarrow> [def_Name (h ! a)]
            | Some replaceInfo \<Rightarrow> [def_Name (h ! a), OldName replaceInfo])
     \<and> (\<forall>e \<in> set exts.
           snd e \<and> def_Kind (fst e) = def_Kind (h ! a)
           \<and> map fd_Name (def_Fields (fst e))
               = List.map_filter (\<lambda>field. map_option OldName (markerOf (fd_Directives field)))
                   (def_Fields (h ! a)))"
proof -
  have n: "\<not> hasProcessedSchema NewReplacer" by (simp add: NewReplacer_def)
  have rf: "rfields r = fold (fieldsStep h) types1 Mapping.empty"
    and rc: "cacheReplacedTypes r = fold (cacheStep h) types1 Mapping.empty"
    and rk: "definitionKinds r = fold (kindsStep h) types1 Mapping.empty"
    unfolding assms(5) processSchema_eq [OF n] by (simp_all add: NewReplacer_def)
  have lf: "Mapping.lookup (rfields r) (def_Name (h ! a)) = Some (renamedFields (h ! a))"
    unfolding rf using assms(4)
    by (simp add: fields_after_pass1 [OF assms(1,2,3)] lookup_default_empty)
  have lk: "Mapping.lookup (definitionKinds r) (def_Name (h ! a)) = Some (def_Kind (h ! a))"
    unfolding rk by (rule kinds_after_pass1 [OF assms(1,2,3)])
  have lc: "Mapping.lookup (cacheReplacedTypes r) (def_Name (h ! a))
          = (case markerOf (def_Directives (h ! a)) of None \<Rightarrow> None | Some ri \<Rightarrow> Some (OldName ri))"
    unfolding rc by (simp add: cache_after_pass1 [OF assms(1,2,3)] split: option.splits)
  have fin: "finite (Mapping.keys (rfields r))" unfolding rf by simp
  have "def_Name (h ! a) \<in> Mapping.keys (rfields r)"
    using lf by (auto simp add: keys_dom_lookup)
  then have k: "def_Name (h ! a) \<in> set (Mapping.ordered_keys (rfields r))"
    using fin by simp
  have an: "allNames r (def_Name (h ! a))
          = (case markerOf (def_Directives (h ! a)) of
               None \<Rightarrow> [def_Name (h ! a)]
             | Some replaceInfo \<Rightarrow> [def_Name (h ! a), OldName replaceInfo])"
    by (simp add: allNames_def lc split: option.splits)
  have so: "stage2_out r (def_Name (h ! a))
      = extensionsFor (def_Kind (h ! a)) (renamedFields (h ! a)) (allNames r (def_Name (h ! a)))
          (map (\<lambda>key. (key, False))
             (Mapping.lookup_default [] (federationKeys r) (def_Name (h ! a))))"
    by (simp add: stage2_out_def lookup_default_def lf lk)
  have on: "map fd_Name (map (oldFieldPure (def_Kind (h ! a))) (renamedFields (h ! a)))
          = List.map_filter (\<lambda>field. map_option OldName (markerOf (fd_Directives field)))
              (def_Fields (h ! a))"
    using renamedFields_oldNames [OF renamedFields_kind [OF assms(4)]] by (simp add: comp_def)
  have m: "\<forall>e \<in> set (stage2_out r (def_Name (h ! a))).
           snd e \<and> def_Kind (fst e) = def_Kind (h ! a)
           \<and> map fd_Name (def_Fields (fst e))
               = List.map_filter (\<lambda>field. map_option OldName (markerOf (fd_Directives field)))
                   (def_Fields (h ! a))"
    unfolding so using extensionsFor_members on by metis
  have nm: "map (def_Name \<circ> fst) (stage2_out r (def_Name (h ! a)))
         = (case markerOf (def_Directives (h ! a)) of
              None \<Rightarrow> [def_Name (h ! a)]
            | Some replaceInfo \<Rightarrow> [def_Name (h ! a), OldName replaceInfo])"
    unfolding so by (simp only: extensionsFor_names an)
  obtain before after
    where ov: "fst (synthesize h r) = before @ stage2_out r (def_Name (h ! a)) @ after"
    using overlay_holds_stage2 [OF k] by blast
  have st: "fst (stage2_step (def_Name (h ! a)) (out, r)) = out @ stage2_out r (def_Name (h ! a))"
    by (simp add: stage2_step_eq)
  show ?thesis using ov st nm m by blast
qed

theorem field_extensions_are_doubled_witness:
  "distinctNames [classroom] [0] \<and> renamedFields ([classroom] ! 0) \<noteq> []
   \<and> map (\<lambda>e. (def_Name (fst e), snd e, map fd_Name (def_Fields (fst e))))
        (fst (synthesize [classroom] (processSchema [classroom] [0] [0] NewReplacer)))
       = [(''StudentList'', False, [''id'', ''teacherKaid'']),
          (''Classroom'', True, [''coachKaid'']),
          (''StudentList'', True, [''coachKaid''])]
   \<and> map (def_Name \<circ> fst)
        (fst (stage2_step ''Classroom'' ([], processSchema [classroom] [0] [0] NewReplacer)))
       = [''Classroom'', ''StudentList'']"
proof -
  have a: "distinctNames [classroom] [0]" by code_simp
  have b: "renamedFields ([classroom] ! 0) \<noteq> []" by code_simp
  have c: "def_Name ([classroom] ! 0) = ''Classroom''" by code_simp
  have d: "markerOf (def_Directives ([classroom] ! 0))
     = Some \<lparr>OldName = ''StudentList'', OldTypeName = [],
             WasRequiredBeforeRename = False, TreatZeroAsUnset = False,
             TreatZeroAsUnsetPresent = False\<rparr>" by code_simp
  have e: "map (\<lambda>e. (def_Name (fst e), snd e, map fd_Name (def_Fields (fst e))))
        (fst (synthesize [classroom] (processSchema [classroom] [0] [0] NewReplacer)))
       = [(''StudentList'', False, [''id'', ''teacherKaid'']),
          (''Classroom'', True, [''coachKaid'']),
          (''StudentList'', True, [''coachKaid''])]" by code_simp
  obtain before exts after where
    x: "fst (stage2_step (def_Name ([classroom] ! 0))
               ([], processSchema [classroom] [0] [0] NewReplacer)) = [] @ exts"
    and y: "map (def_Name \<circ> fst) exts
         = (case markerOf (def_Directives ([classroom] ! 0)) of
              None \<Rightarrow> [def_Name ([classroom] ! 0)]
            | Some replaceInfo \<Rightarrow> [def_Name ([classroom] ! 0), OldName replaceInfo])"
    using field_extensions_are_doubled
      [where ?types2.0 = "[0]" and out = "[]", OF a _ _ b refl] by auto
  have "map (def_Name \<circ> fst)
        (fst (stage2_step ''Classroom'' ([], processSchema [classroom] [0] [0] NewReplacer)))
       = [''Classroom'', ''StudentList'']"
    using x y unfolding c d by simp
  then show ?thesis using a b e by blast
qed

subsection \<open>The input schema after synthesis\<close>

text \<open>
  C2. Synthesis does write into the input schema. The clone of a renamed definition gets
  a field list of its own, but its \<^verbatim>\<open>EnumValues\<close> is still the slice of the input
  definition when the loop stores the stripped copies into it. For the enum of
  \<^verbatim>\<open>TestReplacedEnumValueOnReplacedEnum\<close> the input definition afterwards lists
  \<^verbatim>\<open>COURSE\<close> without its marker; and the same call on the same schema once more returns
  a text without the two enum extensions.
\<close>

theorem synthesis_overwrites_enum_values:
  "def_EnumValues (hd (snd (GetReplacesDirectiveUpdates renderNames [contentKind] [0] [0])))
     = [mkEnumValue ''DOMAIN'' [], mkEnumValue ''COURSE'' [mkDirective ''test'' []]]
   \<and> def_EnumValues contentKind
     = [mkEnumValue ''DOMAIN'' [], mkEnumValue ''COURSE'' [mkDirective ''test'' [], replaces ''TOPIC'']]
   \<and> snd (GetReplacesDirectiveUpdates renderNames [contentKind] [0] [0]) \<noteq> [contentKind]
   \<and> fst (fst (GetReplacesDirectiveUpdates renderNames [contentKind] [0] [0]))
     = ''Deprecated: Replaced by ContentKind.'' @ [CHR 0x0A] @ ''OldContentKind'' @ [CHR 0x0A]
       @ ''extend ContentKind'' @ [CHR 0x0A] @ ''extend OldContentKind'' @ [CHR 0x0A]
   \<and> fst (fst (GetReplacesDirectiveUpdates renderNames
                  (snd (GetReplacesDirectiveUpdates renderNames [contentKind] [0] [0])) [0] [0]))
     = ''Deprecated: Replaced by ContentKind.'' @ [CHR 0x0A] @ ''OldContentKind'' @ [CHR 0x0A]"
  by code_simp

subsection \<open>Federation keys\<close>

text \<open>Rewriting a whole word by a name leaves the other tokens where they are.\<close>

lemma tokens_name_append:
  assumes "is_name w" and "y = [] \<or> \<not> is_word_char (hd y)"
  shows "tokens (w @ y) = w # tokens y"
proof -
  obtain x xs where w: "w = x # xs" and x: "is_word_char x"
    using is_name_Cons [OF assms(1)] by blast
  have all: "\<forall>c \<in> set xs. is_word_char c" using assms(1) w by (simp add: is_name_def)
  have t: "takeWhile is_word_char (xs @ y) = xs"
    using all assms(2) by (cases y) (simp_all add: takeWhile_append2)
  have d: "dropWhile is_word_char (xs @ y) = y"
    using all assms(2) by (cases y) (simp_all add: dropWhile_append2)
  show ?thesis unfolding w using tokens_word_run [OF x, of "xs @ y"] by (simp add: t d)
qed

lemma name_not_other: "is_name n \<Longrightarrow> \<not> is_word_char c \<Longrightarrow> [c] \<noteq> n"
  by (auto simp add: is_name_def)

lemma rewriteWords_other:
  "is_name n \<Longrightarrow> \<not> is_word_char c \<Longrightarrow> rewriteWords n o' (c # cs) = c # rewriteWords n o' cs"
  using name_not_other [of n c] by (simp add: rewriteWords_def)

lemma run_is_name:
  "is_word_char c \<Longrightarrow> is_name (c # takeWhile is_word_char cs)"
  by (auto simp add: is_name_def dest: set_takeWhileD)

lemma tokens_rewriteWords:
  assumes "is_name n" and "is_name o'"
  shows "tokens (rewriteWords n o' k) = map (\<lambda>t. if t = n then o' else t) (tokens k)"
proof (induction k rule: length_induct)
  case (1 k)
  show ?case
  proof (cases k)
    case Nil
    then show ?thesis by (simp add: rewriteWords_def)
  next
    case (Cons c cs)
    show ?thesis
    proof (cases "is_word_char c")
      case False
      have "tokens (rewriteWords n o' cs) = map (\<lambda>t. if t = n then o' else t) (tokens cs)"
        using 1 Cons by simp
      then show ?thesis
        using False Cons name_not_other [OF assms(1) False]
        by (simp add: rewriteWords_other [OF assms(1) False])
    next
      case True
      let ?run = "c # takeWhile is_word_char cs"
      let ?rest = "dropWhile is_word_char cs"
      let ?w = "if ?run = n then o' else ?run"
      have tk: "tokens k = ?run # tokens ?rest"
        unfolding Cons by (rule tokens_word_run [OF True])
      have "length ?rest < length k"
        using Cons by (simp add: length_dropWhile_le le_imp_less_Suc)
      then have ih: "tokens (rewriteWords n o' ?rest)
          = map (\<lambda>t. if t = n then o' else t) (tokens ?rest)"
        using 1 by blast
      have rw: "rewriteWords n o' k = ?w @ rewriteWords n o' ?rest"
        by (simp add: rewriteWords_def tk)
      have w: "is_name ?w" using assms(2) run_is_name [OF True] by simp
      have y: "rewriteWords n o' ?rest = [] \<or> \<not> is_word_char (hd (rewriteWords n o' ?rest))"
      proof (cases ?rest)
        case Nil
        show ?thesis unfolding Nil by (simp add: rewriteWords_def)
      next
        case (Cons d ds)
        then have "\<not> is_word_char d"
          by (metis hd_dropWhile list.distinct(1) list.sel(1))
        then show ?thesis unfolding Cons by (simp add: rewriteWords_other [OF assms(1)])
      qed
      show ?thesis
        unfolding rw tokens_name_append [OF w y] ih tk by simp
    qed
  qed
qed

lemma oldWord_Cons:
  "oldWord (fieldInfo # fs) t
     = (if fd_Name (fi_field fieldInfo) = t then fi_oldName fieldInfo else oldWord fs t)"
  by (simp add: oldWord_def)

lemma rewriteKey_Nil: "rewriteKey [] key = key"
proof -
  have "oldWord [] = (\<lambda>t. t)" by (rule ext) (simp add: oldWord_def)
  then show ?thesis by (simp add: rewriteKey_def concat_tokens)
qed

lemma oldWord_fresh:
  "\<forall>other \<in> set fs. fd_Name (fi_field other) \<noteq> t \<Longrightarrow> oldWord fs t = t"
  by (induction fs) (simp_all add: oldWord_def)

lemma oldWord_cases:
  "(oldWord fs t = t \<and> (\<forall>other \<in> set fs. fd_Name (fi_field other) \<noteq> t))
   \<or> (\<exists>fieldInfo \<in> set fs. oldWord fs t = fi_oldName fieldInfo)"
  by (induction fs) (auto simp add: oldWord_Cons oldWord_def)

lemma separateRenames_iff:
  "separateRenames fs =
     (\<forall>fieldInfo \<in> set fs.
        is_name (fd_Name (fi_field fieldInfo)) \<and> is_name (fi_oldName fieldInfo)
        \<and> (\<forall>other \<in> set fs. fd_Name (fi_field other) \<noteq> fi_oldName fieldInfo))"
  by (simp add: separateRenames_def list_all_iff)

lemma mentionsRenamed_iff:
  "mentionsRenamed fs key = (\<exists>fieldInfo \<in> set fs. fd_Name (fi_field fieldInfo) \<in> set (tokens key))"
  by (simp add: mentionsRenamed_def list_ex_iff)

text \<open>One renamed field after the other, on one key.\<close>

lemma updateKeys_map:
  assumes "is_name (fd_Name (fi_field fieldInfo))"
  shows "updateKeys fieldInfo keys
     = map (\<lambda>(key, u).
              (rewriteWords (fd_Name (fi_field fieldInfo)) (fi_oldName fieldInfo) key,
               u \<or> fd_Name (fi_field fieldInfo) \<in> set (tokens key))) keys"
  unfolding updateKeys_whole_words [OF assms]
  by (rule map_cong) (auto simp add: rewriteWords_absent)

lemma rename_step:
  assumes n: "is_name (fd_Name (fi_field fieldInfo))" and o: "is_name (fi_oldName fieldInfo)"
    and fresh: "\<forall>other \<in> set fs. fd_Name (fi_field other) \<noteq> fi_oldName fieldInfo"
  shows "map (oldWord fs)
           (tokens (rewriteWords (fd_Name (fi_field fieldInfo)) (fi_oldName fieldInfo) key))
       = map (oldWord (fieldInfo # fs)) (tokens key)"
proof -
  have "oldWord fs (fi_oldName fieldInfo) = fi_oldName fieldInfo"
    by (rule oldWord_fresh [OF fresh])
  then show ?thesis
    unfolding tokens_rewriteWords [OF n o] by (simp add: oldWord_Cons)
qed

lemma rename_step_mentions:
  assumes n: "is_name (fd_Name (fi_field fieldInfo))" and o: "is_name (fi_oldName fieldInfo)"
    and fresh: "\<forall>other \<in> set fs. fd_Name (fi_field other) \<noteq> fi_oldName fieldInfo"
  shows "(fd_Name (fi_field fieldInfo) \<in> set (tokens key)
          \<or> mentionsRenamed fs
               (rewriteWords (fd_Name (fi_field fieldInfo)) (fi_oldName fieldInfo) key))
       = mentionsRenamed (fieldInfo # fs) key"
  unfolding mentionsRenamed_iff tokens_rewriteWords [OF n o] using fresh by auto

lemma fold_updateKeys:
  assumes "\<forall>fieldInfo \<in> set fs.
        is_name (fd_Name (fi_field fieldInfo)) \<and> is_name (fi_oldName fieldInfo)
        \<and> (\<forall>other \<in> set fs. fd_Name (fi_field other) \<noteq> fi_oldName fieldInfo)"
  shows "fold updateKeys fs keys
       = map (\<lambda>(key, u). (rewriteKey fs key, u \<or> mentionsRenamed fs key)) keys"
  using assms
proof (induction fs arbitrary: keys)
  case Nil
  show ?case
    by (simp add: rewriteKey_Nil mentionsRenamed_def split_def)
next
  case (Cons fieldInfo fs)
  have n: "is_name (fd_Name (fi_field fieldInfo))" and o: "is_name (fi_oldName fieldInfo)"
    and fresh: "\<forall>other \<in> set fs. fd_Name (fi_field other) \<noteq> fi_oldName fieldInfo"
    using Cons.prems by simp_all
  have rest: "\<forall>fieldInfo \<in> set fs.
        is_name (fd_Name (fi_field fieldInfo)) \<and> is_name (fi_oldName fieldInfo)
        \<and> (\<forall>other \<in> set fs. fd_Name (fi_field other) \<noteq> fi_oldName fieldInfo)"
    using Cons.prems by simp
  have k: "rewriteKey fs (rewriteWords (fd_Name (fi_field fieldInfo)) (fi_oldName fieldInfo) key)
      = rewriteKey (fieldInfo # fs) key" for key
    unfolding rewriteKey_def rename_step [OF n o fresh] ..
  have m: "(fd_Name (fi_field fieldInfo) \<in> set (tokens key)
          \<or> mentionsRenamed fs
               (rewriteWords (fd_Name (fi_field fieldInfo)) (fi_oldName fieldInfo) key))
      = mentionsRenamed (fieldInfo # fs) key" for key
    by (rule rename_step_mentions [OF n o fresh])
  show ?case
    by (simp add: Cons.IH [OF rest] updateKeys_map [OF n] split_def k m disj_assoc)
qed

lemma tokens_rewriteKey:
  assumes "\<forall>fieldInfo \<in> set fs.
        is_name (fd_Name (fi_field fieldInfo)) \<and> is_name (fi_oldName fieldInfo)
        \<and> (\<forall>other \<in> set fs. fd_Name (fi_field other) \<noteq> fi_oldName fieldInfo)"
  shows "tokens (rewriteKey fs key) = map (oldWord fs) (tokens key)"
  using assms
proof (induction fs arbitrary: key)
  case Nil
  have "oldWord [] = (\<lambda>t. t)" by (rule ext) (simp add: oldWord_def)
  then show ?case by (simp add: rewriteKey_Nil)
next
  case (Cons fieldInfo fs)
  have n: "is_name (fd_Name (fi_field fieldInfo))" and o: "is_name (fi_oldName fieldInfo)"
    and fresh: "\<forall>other \<in> set fs. fd_Name (fi_field other) \<noteq> fi_oldName fieldInfo"
    using Cons.prems by simp_all
  have rest: "\<forall>fieldInfo \<in> set fs.
        is_name (fd_Name (fi_field fieldInfo)) \<and> is_name (fi_oldName fieldInfo)
        \<and> (\<forall>other \<in> set fs. fd_Name (fi_field other) \<noteq> fi_oldName fieldInfo)"
    using Cons.prems by simp
  have k: "rewriteKey (fieldInfo # fs) key
      = rewriteKey fs (rewriteWords (fd_Name (fi_field fieldInfo)) (fi_oldName fieldInfo) key)"
    unfolding rewriteKey_def rename_step [OF n o fresh] ..
  show ?case
    unfolding k Cons.IH [OF rest] by (rule rename_step [OF n o fresh])
qed

lemma oldWord_not_renamed:
  assumes "\<forall>fieldInfo \<in> set fs. \<forall>other \<in> set fs.
             fd_Name (fi_field other) \<noteq> fi_oldName fieldInfo"
    and "other \<in> set fs"
  shows "fd_Name (fi_field other) \<noteq> oldWord fs t"
  using oldWord_cases [of fs t] assms by metis

lemma second_round:
  assumes "\<forall>fieldInfo \<in> set fs.
        is_name (fd_Name (fi_field fieldInfo)) \<and> is_name (fi_oldName fieldInfo)
        \<and> (\<forall>other \<in> set fs. fd_Name (fi_field other) \<noteq> fi_oldName fieldInfo)"
  shows "rewriteKey fs (rewriteKey fs key) = rewriteKey fs key"
    and "\<not> mentionsRenamed fs (rewriteKey fs key)"
proof -
  have sep: "\<forall>fieldInfo \<in> set fs. \<forall>other \<in> set fs.
             fd_Name (fi_field other) \<noteq> fi_oldName fieldInfo"
    using assms by blast
  have fresh: "oldWord fs (oldWord fs t) = oldWord fs t" for t
    using oldWord_fresh [of fs "oldWord fs t"] oldWord_not_renamed [OF sep] by blast
  have "tokens (rewriteKey fs key) = map (oldWord fs) (tokens key)"
    by (rule tokens_rewriteKey [OF assms])
  then have "rewriteKey fs (rewriteKey fs key)
      = concat (map (oldWord fs) (map (oldWord fs) (tokens key)))"
    by (simp add: rewriteKey_def)
  then show "rewriteKey fs (rewriteKey fs key) = rewriteKey fs key"
    by (simp add: rewriteKey_def fresh comp_def)
  show "\<not> mentionsRenamed fs (rewriteKey fs key)"
    unfolding mentionsRenamed_iff tokens_rewriteKey [OF assms]
    using oldWord_not_renamed [OF sep] by auto
qed

lemma rounds_of_updateKeys:
  assumes "separateRenames fs"
  shows "(fold updateKeys fs ^^ Suc i) (map (\<lambda>key. (key, False)) keys)
       = map (\<lambda>key. (rewriteKey fs key, mentionsRenamed fs key)) keys"
proof -
  note sep = assms [unfolded separateRenames_iff]
  show ?thesis
  proof (induction i)
    case 0
    show ?case by (simp add: fold_updateKeys [OF sep] comp_def)
  next
    case (Suc i)
    have "(fold updateKeys fs ^^ Suc (Suc i)) (map (\<lambda>key. (key, False)) keys)
        = fold updateKeys fs (map (\<lambda>key. (rewriteKey fs key, mentionsRenamed fs key)) keys)"
      using Suc by simp
    also have "\<dots> = map (\<lambda>key. (rewriteKey fs key, mentionsRenamed fs key)) keys"
      by (simp add: fold_updateKeys [OF sep] comp_def second_round [OF sep])
    finally show ?case .
  qed
qed

lemma keyDirectives_rewritten:
  "keyDirectives (map (\<lambda>key. (rewriteKey fs key, mentionsRenamed fs key)) keys)
     = map (\<lambda>key. \<lparr>dir_Name = ''key'',
                    dir_Arguments =
                      [\<lparr>arg_Name = ''fields'',
                        arg_Value = \<lparr>val_Raw = rewriteKey fs key, val_Kind = StringValue\<rparr>\<rparr>]\<rparr>)
         (filter (mentionsRenamed fs) keys)"
  by (induction keys) (simp_all add: keyDirectives_def stringDirective_def)

text \<open>Stage 1 writes enum values only.\<close>

lemma stage1_keeps_directives:
  "length (snd (fold stage1_step dis (out, h))) = length h
   \<and> (\<forall>a < length h. def_Directives (snd (fold stage1_step dis (out, h)) ! a)
                         = def_Directives (h ! a))"
proof (induction dis arbitrary: out h)
  case Nil
  show ?case by simp
next
  case (Cons di dis)
  obtain out' h' where st: "stage1_step di (out, h) = (out', h')" by (cases "stage1_step di (out, h)")
  have l: "length h' = length h"
    using st by (auto simp add: stage1_step_def Let_def split: if_splits)
  have d: "\<forall>a < length h. def_Directives (h' ! a) = def_Directives (h ! a)"
    using st by (auto simp add: stage1_step_def Let_def nth_list_update split: if_splits)
  show ?case using Cons [of out' h'] st l d by simp
qed

text \<open>
  C8, as stated, fails: the key attached to the extension does not always have the new
  name of a renamed field replaced by the old name of that field. The keys are rewritten
  in place, one renamed field after the other, and a later field is looked for in what an
  earlier one left. In \<^verbatim>\<open>type Chain @key(fields: "a") { a: String @replaces(name: "b")
  b: String @replaces(name: "c") }\<close> the new name \<^verbatim>\<open>a\<close> is a whole word of the key and
  its old name is \<^verbatim>\<open>b\<close>; the extension carries \<^verbatim>\<open>@key(fields: "c")\<close>, not
  \<^verbatim>\<open>@key(fields: "b")\<close>.
\<close>

theorem chained_renames_rewrite_a_key_twice:
  "map fi_oldName (renamedFields chainedRenames) = [''b'', ''c'']
   \<and> map (fd_Name \<circ> fi_field) (renamedFields chainedRenames) = [''a'', ''b'']
   \<and> getFederationKeys chainedRenames = [''a'']
   \<and> map (\<lambda>e. (def_Name (fst e), snd e, def_Directives (fst e)))
        (fst (synthesize [chainedRenames] (processSchema [chainedRenames] [0] [0] NewReplacer)))
       = [(''Chain'', True,
           [\<lparr>dir_Name = ''key'',
             dir_Arguments =
               [\<lparr>arg_Name = ''fields'',
                 arg_Value = \<lparr>val_Raw = ''c'', val_Kind = StringValue\<rparr>\<rparr>]\<rparr>])]"
  by code_simp

text \<open>
  C8, amended. Take a schema whose definitions have names of their own, and in it one
  with renamed fields that are renamed apart: new and old names are GraphQL names, and
  no old name is the new name of a renamed field of the definition. Then the
  overlay that synthesis emits holds, one after the other, the type extensions of the
  field-rename stage for this definition (one under the new name, and one under the old
  name if the definition is renamed), and each of them carries exactly these directives:
  for every key of the definition in which the new name of some renamed field is a whole
  word, in the order of the source, one \<^verbatim>\<open>@key\<close> whose \<^verbatim>\<open>fields\<close> argument is the
  string value made of the key with every whole word that is the new name of a renamed
  field replaced by the old name of that field, and all else as it is. A key in which no
  new name is a whole word, substring or not, is not attached. The keys recorded for the
  definition, and the directives of the definition in the schema, are after synthesis
  what they were before.
\<close>

theorem extension_keys_are_rewritten_keys:
  assumes "distinctNames h types1" and "a \<in> set types1" and "a < length h"
    and "renamedFields (h ! a) \<noteq> []"
    and "separateRenames (renamedFields (h ! a))"
    and "r = processSchema h types1 types2 NewReplacer"
  shows "\<exists>before exts after.
       fst (synthesize h r) = before @ exts @ after
     \<and> map (def_Name \<circ> fst) exts
         = (case markerOf (def_Directives (h ! a)) of
              None \<Rightarrow> [def_Name (h ! a)]
            | Some replaceInfo \<Rightarrow> [def_Name (h ! a), OldName replaceInfo])
     \<and> (\<forall>e \<in> set exts.
           snd e
           \<and> def_Directives (fst e)
               = map (\<lambda>key.
                        \<lparr>dir_Name = ''key'',
                         dir_Arguments =
                           [\<lparr>arg_Name = ''fields'',
                             arg_Value = \<lparr>val_Raw = rewriteKey (renamedFields (h ! a)) key,
                                          val_Kind = StringValue\<rparr>\<rparr>]\<rparr>)
                   (filter (mentionsRenamed (renamedFields (h ! a))) (getFederationKeys (h ! a))))
     \<and> Mapping.lookup (federationKeys (fst (snd (synthesize h r)))) (def_Name (h ! a))
         = Some (getFederationKeys (h ! a))
     \<and> def_Directives (snd (snd (synthesize h r)) ! a) = def_Directives (h ! a)"
proof -
  let ?fs = "renamedFields (h ! a)"
  let ?D = "map (\<lambda>key.
                        \<lparr>dir_Name = ''key'',
                         dir_Arguments =
                           [\<lparr>arg_Name = ''fields'',
                             arg_Value = \<lparr>val_Raw = rewriteKey ?fs key,
                                          val_Kind = StringValue\<rparr>\<rparr>]\<rparr>)
                   (filter (mentionsRenamed ?fs) (getFederationKeys (h ! a)))"
  have n: "\<not> hasProcessedSchema NewReplacer" by (simp add: NewReplacer_def)
  have rf: "rfields r = fold (fieldsStep h) types1 Mapping.empty"
    and rc: "cacheReplacedTypes r = fold (cacheStep h) types1 Mapping.empty"
    and rk: "definitionKinds r = fold (kindsStep h) types1 Mapping.empty"
    and rfk: "federationKeys r = fold (keysStep h) types1 Mapping.empty"
    unfolding assms(6) processSchema_eq [OF n] by (simp_all add: NewReplacer_def)
  have lf: "Mapping.lookup (rfields r) (def_Name (h ! a)) = Some ?fs"
    unfolding rf using assms(4)
    by (simp add: fields_after_pass1 [OF assms(1,2,3)] lookup_default_empty)
  have lfk: "Mapping.lookup (federationKeys r) (def_Name (h ! a)) = Some (getFederationKeys (h ! a))"
    unfolding rfk by (rule keys_after_pass1 [OF assms(1,2,3)])
  have lc: "Mapping.lookup (cacheReplacedTypes r) (def_Name (h ! a))
          = (case markerOf (def_Directives (h ! a)) of None \<Rightarrow> None | Some ri \<Rightarrow> Some (OldName ri))"
    unfolding rc by (simp add: cache_after_pass1 [OF assms(1,2,3)] split: option.splits)
  have fin: "finite (Mapping.keys (rfields r))" unfolding rf by simp
  have "def_Name (h ! a) \<in> Mapping.keys (rfields r)"
    using lf by (auto simp add: keys_dom_lookup)
  then have k: "def_Name (h ! a) \<in> set (Mapping.ordered_keys (rfields r))"
    using fin by simp
  have an: "allNames r (def_Name (h ! a))
          = (case markerOf (def_Directives (h ! a)) of
               None \<Rightarrow> [def_Name (h ! a)]
             | Some replaceInfo \<Rightarrow> [def_Name (h ! a), OldName replaceInfo])"
    by (simp add: allNames_def lc split: option.splits)
  have so: "stage2_out r (def_Name (h ! a))
      = extensionsFor (Mapping.lookup_default KindZero (definitionKinds r) (def_Name (h ! a)))
          ?fs (allNames r (def_Name (h ! a)))
          (map (\<lambda>key. (key, False)) (getFederationKeys (h ! a)))"
    by (simp add: stage2_out_def lookup_default_def lf lfk)
  have nm: "map (def_Name \<circ> fst) (stage2_out r (def_Name (h ! a)))
         = (case markerOf (def_Directives (h ! a)) of
              None \<Rightarrow> [def_Name (h ! a)]
            | Some replaceInfo \<Rightarrow> [def_Name (h ! a), OldName replaceInfo])"
    unfolding so by (simp only: extensionsFor_names an)
  have "map (def_Directives \<circ> fst) (stage2_out r (def_Name (h ! a)))
         = map (\<lambda>i. keyDirectives
                  ((fold updateKeys ?fs ^^ Suc i)
                     (map (\<lambda>key. (key, False)) (getFederationKeys (h ! a)))))
             [0..<length (allNames r (def_Name (h ! a)))]"
    unfolding so by (rule extensionsFor_directives)
  then have ds: "map (def_Directives \<circ> fst) (stage2_out r (def_Name (h ! a)))
         = map (\<lambda>i. ?D) [0..<length (allNames r (def_Name (h ! a)))]"
    by (simp only: rounds_of_updateKeys [OF assms(5)] keyDirectives_rewritten)
  have m: "\<forall>e \<in> set (stage2_out r (def_Name (h ! a))). snd e \<and> def_Directives (fst e) = ?D"
  proof
    fix e
    assume e: "e \<in> set (stage2_out r (def_Name (h ! a)))"
    then have "(def_Directives \<circ> fst) e
        \<in> set (map (def_Directives \<circ> fst) (stage2_out r (def_Name (h ! a))))"
      by (simp only: set_map) (rule imageI)
    then have "def_Directives (fst e) = ?D"
      unfolding ds by auto
    moreover have "snd e" using e extensionsFor_members unfolding so by blast
    ultimately show "snd e \<and> def_Directives (fst e) = ?D" by simp
  qed
  obtain before after
    where ov: "fst (synthesize h r) = before @ stage2_out r (def_Name (h ! a)) @ after"
    using overlay_holds_stage2 [OF k] by blast
  have fk: "Mapping.lookup (federationKeys (fst (snd (synthesize h r)))) (def_Name (h ! a))
         = Some (getFederationKeys (h ! a))"
    using lfk by (simp add: synthesize_eq)
  have hp: "def_Directives (snd (snd (synthesize h r)) ! a) = def_Directives (h ! a)"
    using stage1_keeps_directives [of "sort_key di_oldName (definitions r)" "[]" h] assms(3)
    by (simp add: synthesize_eq)
  show ?thesis using ov nm m fk hp by blast
qed

text \<open>The instances of the specification: the key \<^verbatim>\<open>"id kaLocale"\<close> with \<^verbatim>\<open>kaLocale\<close>
  renamed from \<^verbatim>\<open>locale\<close> gives an extension with the key \<^verbatim>\<open>"id locale"\<close> and leaves the
  recorded key and the key of the type alone; the key \<^verbatim>\<open>"id kaLocaleValue"\<close> gives an
  extension without key; and for a renamed type both extensions carry the rewritten
  key, while the clone of the type keeps the key of the type.\<close>

theorem extension_keys_are_rewritten_keys_witness:
  "distinctNames [userKaLocaleCourse ''id kaLocale''] [0]
   \<and> renamedFields (userKaLocaleCourse ''id kaLocale'') \<noteq> []
   \<and> separateRenames (renamedFields (userKaLocaleCourse ''id kaLocale''))
   \<and> map (\<lambda>e. (def_Name (fst e), snd e, def_Directives (fst e)))
        (fst (synthesize [userKaLocaleCourse ''id kaLocale'']
                (processSchema [userKaLocaleCourse ''id kaLocale''] [0] [0] NewReplacer)))
       = [(''UserKaLocaleCourse'', True,
           [\<lparr>dir_Name = ''key'',
             dir_Arguments =
               [\<lparr>arg_Name = ''fields'',
                 arg_Value = \<lparr>val_Raw = ''id locale'', val_Kind = StringValue\<rparr>\<rparr>]\<rparr>])]
   \<and> Mapping.lookup
        (federationKeys (fst (snd (synthesize [userKaLocaleCourse ''id kaLocale'']
           (processSchema [userKaLocaleCourse ''id kaLocale''] [0] [0] NewReplacer)))))
        ''UserKaLocaleCourse'' = Some [''id kaLocale'']
   \<and> getFederationKeys
        (snd (snd (synthesize [userKaLocaleCourse ''id kaLocale'']
           (processSchema [userKaLocaleCourse ''id kaLocale''] [0] [0] NewReplacer))) ! 0)
       = [''id kaLocale'']
   \<and> separateRenames (renamedFields (userKaLocaleCourse ''id kaLocaleValue''))
   \<and> map (\<lambda>e. (def_Name (fst e), snd e, def_Directives (fst e)))
        (fst (synthesize [userKaLocaleCourse ''id kaLocaleValue'']
                (processSchema [userKaLocaleCourse ''id kaLocaleValue''] [0] [0] NewReplacer)))
       = [(''UserKaLocaleCourse'', True, [])]
   \<and> separateRenames (renamedFields classroomWithKey)
   \<and> map (\<lambda>e. (def_Name (fst e), snd e, getFederationKeys (fst e)))
        (fst (synthesize [classroomWithKey]
                (processSchema [classroomWithKey] [0] [0] NewReplacer)))
       = [(''StudentList'', False, [''id teacherKaid'']),
          (''Classroom'', True, [''id coachKaid'']),
          (''StudentList'', True, [''id coachKaid''])]"
proof -
  let ?h = "[userKaLocaleCourse ''id kaLocale'']"
  let ?r = "processSchema ?h [0] [0] NewReplacer"
  let ?h' = "[userKaLocaleCourse ''id kaLocaleValue'']"
  let ?r' = "processSchema ?h' [0] [0] NewReplacer"
  let ?key = "\<lambda>raw. \<lparr>dir_Name = ''key'',
             dir_Arguments =
               [\<lparr>arg_Name = ''fields'',
                 arg_Value = \<lparr>val_Raw = raw, val_Kind = StringValue\<rparr>\<rparr>]\<rparr>"
  have a: "distinctNames ?h [0]" by code_simp
  have a': "distinctNames ?h' [0]" by code_simp
  have b: "renamedFields (?h ! 0) \<noteq> []" by code_simp
  have b': "renamedFields (?h' ! 0) \<noteq> []" by code_simp
  have c: "separateRenames (renamedFields (?h ! 0))" by code_simp
  have c': "separateRenames (renamedFields (?h' ! 0))" by code_simp
  have c'': "separateRenames (renamedFields classroomWithKey)" by code_simp
  have mk: "markerOf (def_Directives (?h ! 0)) = None" by code_simp
  have mk': "markerOf (def_Directives (?h' ! 0)) = None" by code_simp
  have nm: "def_Name (?h ! 0) = ''UserKaLocaleCourse''" by code_simp
  have nm': "def_Name (?h' ! 0) = ''UserKaLocaleCourse''" by code_simp
  have fk: "getFederationKeys (?h ! 0) = [''id kaLocale'']" by code_simp
  have dk: "map (\<lambda>key. ?key (rewriteKey (renamedFields (?h ! 0)) key))
              (filter (mentionsRenamed (renamedFields (?h ! 0))) (getFederationKeys (?h ! 0)))
          = [?key ''id locale'']" by code_simp
  have dk': "map (\<lambda>key. ?key (rewriteKey (renamedFields (?h' ! 0)) key))
              (filter (mentionsRenamed (renamedFields (?h' ! 0))) (getFederationKeys (?h' ! 0)))
          = []" by code_simp
  have len: "length (fst (synthesize ?h ?r)) = 1" by code_simp
  have len': "length (fst (synthesize ?h' ?r')) = 1" by code_simp
  have m: "(0::nat) \<in> set [0]" by simp
  have l: "0 < length ?h" by simp
  have l': "0 < length ?h'" by simp
  note t = extension_keys_are_rewritten_keys
      [where ?types2.0 = "[0]", OF a m l b c refl]
  note t1 = t [unfolded mk nm dk option.case]
  note t2 = t1 [unfolded fk]
  from t2 obtain before exts after where
    ov: "fst (synthesize ?h ?r) = before @ exts @ after"
    and en: "map (def_Name \<circ> fst) exts = [''UserKaLocaleCourse'']"
    and ed: "\<forall>e \<in> set exts. snd e \<and> def_Directives (fst e) = [?key ''id locale'']"
    and lk: "Mapping.lookup (federationKeys (fst (snd (synthesize ?h ?r)))) ''UserKaLocaleCourse''
         = Some [''id kaLocale'']"
    and hd: "def_Directives (snd (snd (synthesize ?h ?r)) ! 0) = def_Directives (?h ! 0)"
    by (elim exE conjE) (rule that)
  obtain e where e: "exts = [e]" using en by (cases exts) auto
  have "length (before @ exts @ after) = 1" using len ov by simp
  then have "before = [] \<and> after = []" unfolding e by simp
  then have "fst (synthesize ?h ?r) = [e]" using ov e by simp
  then have w1: "map (\<lambda>e. (def_Name (fst e), snd e, def_Directives (fst e))) (fst (synthesize ?h ?r))
       = [(''UserKaLocaleCourse'', True, [?key ''id locale''])]"
    using en ed unfolding e by simp
  have w2: "getFederationKeys (snd (snd (synthesize ?h ?r)) ! 0) = [''id kaLocale'']"
    using fk unfolding getFederationKeys_def hd by simp
  note t' = extension_keys_are_rewritten_keys
      [where ?types2.0 = "[0]", OF a' m l' b' c' refl]
  note t1' = t' [unfolded mk' nm' dk' option.case]
  from t1' obtain before' exts' after' where
    ov': "fst (synthesize ?h' ?r') = before' @ exts' @ after'"
    and en': "map (def_Name \<circ> fst) exts' = [''UserKaLocaleCourse'']"
    and ed': "\<forall>e \<in> set exts'. snd e \<and> def_Directives (fst e) = []"
    by (elim exE conjE) (rule that)
  obtain e' where e': "exts' = [e']" using en' by (cases exts') auto
  have "length (before' @ exts' @ after') = 1" using len' ov' by simp
  then have "before' = [] \<and> after' = []" unfolding e' by simp
  then have "fst (synthesize ?h' ?r') = [e']" using ov' e' by simp
  then have w3: "map (\<lambda>e. (def_Name (fst e), snd e, def_Directives (fst e)))
        (fst (synthesize ?h' ?r')) = [(''UserKaLocaleCourse'', True, [])]"
    using en' ed' unfolding e' by simp
  have w4: "map (\<lambda>e. (def_Name (fst e), snd e, getFederationKeys (fst e)))
        (fst (synthesize [classroomWithKey]
                (processSchema [classroomWithKey] [0] [0] NewReplacer)))
       = [(''StudentList'', False, [''id teacherKaid'']),
          (''Classroom'', True, [''id coachKaid'']),
          (''StudentList'', True, [''id coachKaid''])]"
    by code_simp
  have b0: "renamedFields (userKaLocaleCourse ''id kaLocale'') \<noteq> []" using b by simp
  have c0: "separateRenames (renamedFields (userKaLocaleCourse ''id kaLocale''))" using c by simp
  have c0': "separateRenames (renamedFields (userKaLocaleCourse ''id kaLocaleValue''))"
    using c' by simp
  show ?thesis using a b0 c0 w1 lk w2 c0' w3 c'' w4 by blast
qed

end
